theory Spec2Isabelle
  imports Main "HOL-Library.Word"
begin

unbundle bit_operations_syntax

section \<open>Data model (include/linux/skip\_lists.h)\<close>

text \<open>
  Pointers are addresses, \<open>NULL\<close> is address 0.  \<open>keyType\<close> is \<open>u64\<close>, \<open>valueType\<close> is a
  pointer to a task structure that the skip list never dereferences.  The C \<open>int\<close> fields
  and counters are modelled as \<open>int\<close>: every value they take lies between -1 and 32, so
  no 32-bit arithmetic wraps.
\<close>

type_synonym u64 = "64 word"
type_synonym keyType = u64
type_synonym addr = nat
type_synonym valueType = addr

abbreviation NULL :: addr where
  "NULL \<equiv> 0"

definition MaxNumberOfLevels :: int where
  "MaxNumberOfLevels = 16"

definition MaxLevel :: int where
  "MaxLevel = MaxNumberOfLevels - 1"

text \<open>
  \<open>struct nodeStructure\<close>.  The two pointer arrays are maps from the index to the stored
  pointer; a slot that was never written (memory as \<open>kmalloc\<close> returns it) is \<open>None\<close>.
\<close>

record nodeStructure =
  level :: int
  key :: keyType
  "value" :: valueType
  "next" :: "int \<rightharpoonup> addr"
  prev :: "int \<rightharpoonup> addr"

text \<open>
  The store: the allocated nodes by address, and the one \<open>struct listStructure\<close> the
  functions receive as \<open>l\<close> (its fields \<open>level\<close> and \<open>header\<close>).
\<close>

record state =
  heap :: "addr \<rightharpoonup> nodeStructure"
  l_level :: int
  l_header :: addr

text \<open>
  What C leaves undefined is a fault of the model: dereferencing \<open>NULL\<close>, a freed or a
  never allocated node, indexing an array outside \<open>0..15\<close>, reading a slot that was never
  written.  \<open>Bug\<close> is \<open>BUG_ON\<close>.
\<close>

datatype fault = BadPointer | OutOfBounds | Uninitialised | Bug

definition in_bounds :: "int \<Rightarrow> bool" where
  "in_bounds k \<longleftrightarrow> 0 \<le> k \<and> k < MaxNumberOfLevels"

definition get_node :: "state \<Rightarrow> addr \<Rightarrow> fault + nodeStructure" where
  "get_node s p =
     (if p = NULL then Inl BadPointer
      else (case heap s p of None \<Rightarrow> Inl BadPointer | Some n \<Rightarrow> Inr n))"

text \<open>\<open>p->next[k]\<close> and \<open>p->prev[k]\<close> as values.\<close>

definition get_next :: "state \<Rightarrow> addr \<Rightarrow> int \<Rightarrow> fault + addr" where
  "get_next s p k =
     (case get_node s p of
        Inl e \<Rightarrow> Inl e
      | Inr n \<Rightarrow>
          if \<not> in_bounds k then Inl OutOfBounds
          else (case next n k of None \<Rightarrow> Inl Uninitialised | Some q \<Rightarrow> Inr q))"

definition get_prev :: "state \<Rightarrow> addr \<Rightarrow> int \<Rightarrow> fault + addr" where
  "get_prev s p k =
     (case get_node s p of
        Inl e \<Rightarrow> Inl e
      | Inr n \<Rightarrow>
          if \<not> in_bounds k then Inl OutOfBounds
          else (case prev n k of None \<Rightarrow> Inl Uninitialised | Some q \<Rightarrow> Inr q))"

text \<open>\<open>p->next[k] = v\<close> and \<open>p->prev[k] = v\<close>.\<close>

definition set_next :: "state \<Rightarrow> addr \<Rightarrow> int \<Rightarrow> addr \<Rightarrow> fault + state" where
  "set_next s p k v =
     (case get_node s p of
        Inl e \<Rightarrow> Inl e
      | Inr n \<Rightarrow>
          if \<not> in_bounds k then Inl OutOfBounds
          else Inr (s\<lparr>heap := (heap s)(p \<mapsto> n\<lparr>next := (next n)(k \<mapsto> v)\<rparr>)\<rparr>))"

definition set_prev :: "state \<Rightarrow> addr \<Rightarrow> int \<Rightarrow> addr \<Rightarrow> fault + state" where
  "set_prev s p k v =
     (case get_node s p of
        Inl e \<Rightarrow> Inl e
      | Inr n \<Rightarrow>
          if \<not> in_bounds k then Inl OutOfBounds
          else Inr (s\<lparr>heap := (heap s)(p \<mapsto> n\<lparr>prev := (prev n)(k \<mapsto> v)\<rparr>)\<rparr>))"

section \<open>Construction (kernel/skip\_lists.c)\<close>

text \<open>
  The loop of \<open>skiplist_init\<close>: \<open>for (i = 0; i < MaxNumberOfLevels; i++)
  slnode->next[i] = slnode->prev[i] = slnode\<close>.
\<close>

function init_links :: "addr \<Rightarrow> nodeStructure \<Rightarrow> int \<Rightarrow> nodeStructure" where
  "init_links slnode n i =
     (if i < MaxNumberOfLevels
      then init_links slnode
             (n\<lparr>prev := (prev n)(i \<mapsto> slnode), next := (next n)(i \<mapsto> slnode)\<rparr>) (i + 1)
      else n)"
  by pat_completeness auto
termination
  by (relation "measure (\<lambda>(slnode, n, i). nat (MaxNumberOfLevels - i))") auto

text \<open>
  \<open>skiplist_init\<close>.  \<open>newNode\<close> is the pointer \<open>kmalloc\<close> returns: the allocator is outside
  the file, so its answer is an argument.  The result is the store with the sentinel in it,
  and the sentinel's address.
\<close>

definition skiplist_init ::
    "addr \<Rightarrow> (addr \<rightharpoonup> nodeStructure) \<Rightarrow> fault + (addr \<rightharpoonup> nodeStructure) \<times> addr" where
  "skiplist_init newNode hp =
     (let slnode = newNode in
      if slnode = NULL then Inl Bug
      else Inr (hp(slnode \<mapsto>
                  init_links slnode
                    \<lparr>level = 0, key = 0xFFFFFFFFFFFFFFFF, value = NULL,
                     next = Map.empty, prev = Map.empty\<rparr> 0),
                slnode))"

text \<open>\<open>new_skiplist\<close>: the list structure, height 0, pointing to the sentinel.\<close>

definition new_skiplist :: "(addr \<rightharpoonup> nodeStructure) \<Rightarrow> addr \<Rightarrow> state" where
  "new_skiplist hp slnode = \<lparr>heap = hp, l_level = 0, l_header = slnode\<rparr>"

section \<open>Level randomization\<close>

text \<open>The loop of \<open>randomLevel\<close>, on the pair of its two variables.\<close>

function randomLevel_loop :: "u64 \<Rightarrow> int \<Rightarrow> int" where
  "randomLevel_loop randseed lev =
     (if randseed \<noteq> 0 \<and> randseed AND 3 = 0
      then randomLevel_loop (drop_bit 2 randseed) (lev + 1)
      else lev)"
  by pat_completeness auto
termination
proof (relation "measure (\<lambda>(randseed, lev). unat randseed)")
  show "wf (measure (\<lambda>(randseed :: u64, lev :: int). unat randseed))"
    by simp
next
  fix randseed :: u64 and lev :: int
  assume a: "randseed \<noteq> 0 \<and> randseed AND 3 = 0"
  have "unat (drop_bit 2 randseed) = unat randseed div 4"
    by (simp add: drop_bit_eq_div unat_div)
  moreover have "0 < unat randseed"
    using a by (simp add: unat_gt_0)
  ultimately show "((drop_bit 2 randseed, lev + 1), (randseed, lev))
      \<in> measure (\<lambda>(randseed, lev). unat randseed)"
    by simp
qed

definition randomLevel :: "u64 \<Rightarrow> int" where
  "randomLevel randseed =
     (let lev = randomLevel_loop randseed 0
      in if lev > MaxLevel then MaxLevel else lev)"

section \<open>Insertion\<close>

text \<open>
  The inner loop of the search, \<open>while (q = p->next[k], q->key <= key) p = q\<close>.  Nothing
  in the code bounds it, so it is a partial function: \<open>None\<close> is a loop that never ends.
\<close>

partial_function (option) search_level ::
    "state \<Rightarrow> keyType \<Rightarrow> int \<Rightarrow> addr \<Rightarrow> (fault + addr) option" where
  "search_level s key' k p =
     (case get_next s p k of
        Inl e \<Rightarrow> Some (Inl e)
      | Inr q \<Rightarrow>
          (case get_node s q of
             Inl e \<Rightarrow> Some (Inl e)
           | Inr qn \<Rightarrow>
               if key qn \<le> key' then search_level s key' k q else Some (Inr p)))"

text \<open>
  The outer loop, \<open>do { ...; update[k] = p; } while (--k >= 0)\<close>.  The local array
  \<open>update\<close> starts uninitialised.
\<close>

function find_update ::
    "state \<Rightarrow> keyType \<Rightarrow> int \<Rightarrow> addr \<Rightarrow> (int \<rightharpoonup> addr) \<Rightarrow> (fault + (int \<rightharpoonup> addr)) option" where
  "find_update s key' k p update =
     (case search_level s key' k p of
        None \<Rightarrow> None
      | Some (Inl e) \<Rightarrow> Some (Inl e)
      | Some (Inr p') \<Rightarrow>
          if \<not> in_bounds k then Some (Inl OutOfBounds)
          else if k - 1 \<ge> 0 then find_update s key' (k - 1) p' (update(k \<mapsto> p'))
          else Some (Inr (update(k \<mapsto> p'))))"
  by pat_completeness auto
termination
  by (relation "measure (\<lambda>(s, key', k, p, update). nat k)") auto

text \<open>
  The splicing loop: \<open>do { p = update[k]; q->next[k] = p->next[k]; p->next[k] = q;
  q->prev[k] = p; q->next[k]->prev[k] = q; } while (--k >= 0)\<close>.
\<close>

function splice :: "state \<Rightarrow> addr \<Rightarrow> (int \<rightharpoonup> addr) \<Rightarrow> int \<Rightarrow> fault + state" where
  "splice s q update k =
     (if \<not> in_bounds k then Inl OutOfBounds
      else
     (case update k of
        None \<Rightarrow> Inl Uninitialised
      | Some p \<Rightarrow>
     (case get_next s p k of
        Inl e \<Rightarrow> Inl e
      | Inr pn \<Rightarrow>
     (case set_next s q k pn of
        Inl e \<Rightarrow> Inl e
      | Inr s1 \<Rightarrow>
     (case set_next s1 p k q of
        Inl e \<Rightarrow> Inl e
      | Inr s2 \<Rightarrow>
     (case set_prev s2 q k p of
        Inl e \<Rightarrow> Inl e
      | Inr s3 \<Rightarrow>
     (case get_next s3 q k of
        Inl e \<Rightarrow> Inl e
      | Inr qn \<Rightarrow>
     (case set_prev s3 qn k q of
        Inl e \<Rightarrow> Inl e
      | Inr s4 \<Rightarrow>
          if k - 1 \<ge> 0 then splice s4 q update (k - 1) else Inr s4))))))))"
  by pat_completeness auto
termination
  by (relation "measure (\<lambda>(s, q, update, k). nat k)") auto

text \<open>
  \<open>skiplist_insert\<close>.  \<open>newNode\<close> is again the pointer \<open>kmalloc\<close> returns; the code does not
  test it (``we assume that the memory allocation always succeeds''), so \<open>NULL\<close> is a
  fault at the first store through it.  The result is the new store and the handle.
\<close>

definition skiplist_insert ::
    "addr \<Rightarrow> state \<Rightarrow> keyType \<Rightarrow> valueType \<Rightarrow> u64 \<Rightarrow> addr \<Rightarrow> (fault + state \<times> addr) option" where
  "skiplist_insert slnode s key' value' randseed newNode =
     (case find_update s key' (l_level s) slnode Map.empty of
        None \<Rightarrow> None
      | Some (Inl e) \<Rightarrow> Some (Inl e)
      | Some (Inr update) \<Rightarrow>
          (let k = randomLevel randseed;
               grow = (k > l_level s);
               s1 = (if grow then s\<lparr>l_level := l_level s + 1\<rparr> else s);
               k1 = (if grow then l_level s1 else k);
               update1 = (if grow then update(k1 \<mapsto> slnode) else update);
               q = newNode
           in if grow \<and> \<not> in_bounds k1 then Some (Inl OutOfBounds)
              else if q = NULL then Some (Inl BadPointer)
              else
                (case splice
                        (s1\<lparr>heap := (heap s1)(q \<mapsto>
                              \<lparr>level = k1, key = key', value = value',
                               next = Map.empty, prev = Map.empty\<rparr>)\<rparr>)
                        q update1 k1 of
                   Inl e \<Rightarrow> Some (Inl e)
                 | Inr s' \<Rightarrow> Some (Inr (s', q)))))"

section \<open>Deletion\<close>

text \<open>
  The unlinking loop: \<open>for (k = 0; k <= m; k++) { node->prev[k]->next[k] = node->next[k];
  node->next[k]->prev[k] = node->prev[k]; }\<close>.
\<close>

function unlink :: "state \<Rightarrow> addr \<Rightarrow> int \<Rightarrow> int \<Rightarrow> fault + state" where
  "unlink s node k m =
     (if k \<le> m then
     (case get_prev s node k of
        Inl e \<Rightarrow> Inl e
      | Inr np \<Rightarrow>
     (case get_next s node k of
        Inl e \<Rightarrow> Inl e
      | Inr nn \<Rightarrow>
     (case set_next s np k nn of
        Inl e \<Rightarrow> Inl e
      | Inr s1 \<Rightarrow>
     (case get_next s1 node k of
        Inl e \<Rightarrow> Inl e
      | Inr nn' \<Rightarrow>
     (case get_prev s1 node k of
        Inl e \<Rightarrow> Inl e
      | Inr np' \<Rightarrow>
     (case set_prev s1 nn' k np' of
        Inl e \<Rightarrow> Inl e
      | Inr s2 \<Rightarrow> unlink s2 node (k + 1) m))))))
      else Inr s)"
  by pat_completeness auto
termination
  by (relation "measure (\<lambda>(s, node, k, m). nat (m + 1 - k))") auto

text \<open>
  The shrinking loop: \<open>while (l->header->next[m] == slnode && l->header->prev[m] == slnode
  && m > 0) m--\<close>, with the short-circuit order of \<open>&&\<close>.
\<close>

function shrink :: "state \<Rightarrow> addr \<Rightarrow> int \<Rightarrow> fault + int" where
  "shrink s slnode m =
     (case get_next s (l_header s) m of
        Inl e \<Rightarrow> Inl e
      | Inr hn \<Rightarrow>
          if hn \<noteq> slnode then Inr m
          else
            (case get_prev s (l_header s) m of
               Inl e \<Rightarrow> Inl e
             | Inr hp \<Rightarrow>
                 if hp \<noteq> slnode then Inr m
                 else if m > 0 then shrink s slnode (m - 1)
                 else Inr m))"
  by pat_completeness auto
termination
  by (relation "measure (\<lambda>(s, slnode, m). nat m)") auto

text \<open>\<open>skiplist_delnode\<close>; \<open>kfree\<close> takes the node out of the store.\<close>

definition skiplist_delnode :: "addr \<Rightarrow> state \<Rightarrow> addr \<Rightarrow> fault + state" where
  "skiplist_delnode slnode s node =
     (case get_node s node of
        Inl e \<Rightarrow> Inl e
      | Inr n \<Rightarrow>
          (let m = level n in
           (case unlink s node 0 m of
              Inl e \<Rightarrow> Inl e
            | Inr s1 \<Rightarrow>
                (let s2 = s1\<lparr>heap := (heap s1)(node := None)\<rparr> in
                 if m = l_level s2 then
                   (case shrink s2 slnode m of
                      Inl e \<Rightarrow> Inl e
                    | Inr m' \<Rightarrow> Inr (s2\<lparr>l_level := m'\<rparr>))
                 else Inr s2))))"

section \<open>Specification-side notions\<close>

text \<open>
  The number of trailing zero bit-pairs of a 64-bit value: how many of the pairs
  (bits \<open>2i\<close> and \<open>2i+1\<close>), counted from the low end, are zero before the first pair that
  is not.
\<close>

definition trailing_zero_pairs :: "u64 \<Rightarrow> nat" where
  "trailing_zero_pairs r =
     length (takeWhile (\<lambda>i. \<not> bit r (2 * i) \<and> \<not> bit r (2 * i + 1)) [0..<32])"

text \<open>
  Views of the store.  \<open>nxt s k p\<close> and \<open>prv s k p\<close> are the contents of \<open>p->next[k]\<close> and
  \<open>p->prev[k]\<close> (\<open>None\<close> when \<open>p\<close> is not allocated or the slot was never written);
  \<open>level_of\<close>, \<open>key_of\<close> and \<open>value_of\<close> read the scalar fields, with 0 for an address that
  is not allocated.
\<close>

definition nxt :: "state \<Rightarrow> int \<Rightarrow> addr \<rightharpoonup> addr" where
  "nxt s k p = (case heap s p of None \<Rightarrow> None | Some n \<Rightarrow> next n k)"

definition prv :: "state \<Rightarrow> int \<Rightarrow> addr \<rightharpoonup> addr" where
  "prv s k p = (case heap s p of None \<Rightarrow> None | Some n \<Rightarrow> prev n k)"

definition level_of :: "state \<Rightarrow> addr \<Rightarrow> int" where
  "level_of s p = (case heap s p of None \<Rightarrow> 0 | Some n \<Rightarrow> level n)"

definition key_of :: "state \<Rightarrow> addr \<Rightarrow> keyType" where
  "key_of s p = (case heap s p of None \<Rightarrow> 0 | Some n \<Rightarrow> key n)"

definition value_of :: "state \<Rightarrow> addr \<Rightarrow> valueType" where
  "value_of s p = (case heap s p of None \<Rightarrow> NULL | Some n \<Rightarrow> value n)"

text \<open>
  Two stores that differ at most in the contents of \<open>next\<close> and \<open>prev\<close> slots.
\<close>

definition same_fields :: "state \<Rightarrow> state \<Rightarrow> bool" where
  "same_fields s s' \<longleftrightarrow>
     l_level s' = l_level s \<and> l_header s' = l_header s \<and> dom (heap s') = dom (heap s) \<and>
     level_of s' = level_of s \<and> key_of s' = key_of s \<and> value_of s' = value_of s"

text \<open>
  A doubly linked path at one level: from \<open>p\<close>, the \<open>next\<close> pointers \<open>nx\<close> visit \<open>xs\<close> in
  order and then reach \<open>z\<close>, and the \<open>prev\<close> pointers \<open>pv\<close> lead back step by step.
\<close>

fun lnk :: "(addr \<rightharpoonup> addr) \<Rightarrow> (addr \<rightharpoonup> addr) \<Rightarrow> addr \<Rightarrow> addr list \<Rightarrow> addr \<Rightarrow> bool" where
  "lnk nx pv p [] z \<longleftrightarrow> nx p = Some z \<and> pv z = Some p"
| "lnk nx pv p (x # xs) z \<longleftrightarrow> nx p = Some x \<and> pv x = Some p \<and> lnk nx pv x xs z"

text \<open>
  The nodes of \<open>xs\<close> that take part in the chain of level \<open>k\<close>: those of level \<open>k\<close> or more.
\<close>

definition lev_filter :: "state \<Rightarrow> int \<Rightarrow> addr list \<Rightarrow> addr list" where
  "lev_filter s k xs = filter (\<lambda>x. k \<le> level_of s x) xs"

text \<open>
  The invariant of a list with sentinel \<open>h\<close> whose nodes, in the order of the level-0 chain,
  are \<open>xs\<close>: the store holds the sentinel and these nodes and nothing at \<open>NULL\<close>; the
  sentinel's scalar fields are as constructed; the height is in \<open>0..15\<close>, bounds every node
  level, and is reached by some node unless it is 0; the keys are sorted; at each of the 16
  levels the chain from the sentinel to the sentinel holds exactly the nodes of that level or
  more, in the same order; a node's slots outside \<open>0..level\<close> were never written.
\<close>

definition Inv :: "addr \<Rightarrow> state \<Rightarrow> addr list \<Rightarrow> bool" where
  "Inv h s xs \<longleftrightarrow>
     l_header s = h \<and> NULL \<notin> dom (heap s) \<and> dom (heap s) = insert h (set xs) \<and>
     h \<notin> set xs \<and> distinct xs \<and>
     key_of s h = 0xFFFFFFFFFFFFFFFF \<and> level_of s h = 0 \<and> value_of s h = NULL \<and>
     0 \<le> l_level s \<and> l_level s < MaxNumberOfLevels \<and>
     (\<forall>x \<in> set xs. 0 \<le> level_of s x \<and> level_of s x \<le> l_level s) \<and>
     (l_level s = 0 \<or> (\<exists>x \<in> set xs. level_of s x = l_level s)) \<and>
     sorted (map (key_of s) xs) \<and>
     (\<forall>k. in_bounds k \<longrightarrow> lnk (nxt s k) (prv s k) h (lev_filter s k xs) h) \<and>
     (\<forall>x \<in> set xs. \<forall>k. \<not> (0 \<le> k \<and> k \<le> level_of s x) \<longrightarrow>
        nxt s k x = None \<and> prv s k x = None)"

text \<open>
  Where an insert of \<open>key'\<close> goes: the nodes up to the last one whose key is \<open><= key'\<close> stay
  before the new node, the others after it.  \<open>pred_at\<close> and \<open>succ_at\<close> are then the neighbours
  of the new node at level \<open>j\<close>, and \<open>new_level\<close> is the level the new node gets.
\<close>

definition le_part :: "state \<Rightarrow> keyType \<Rightarrow> addr list \<Rightarrow> addr list" where
  "le_part s key' xs = takeWhile (\<lambda>x. key_of s x \<le> key') xs"

definition gt_part :: "state \<Rightarrow> keyType \<Rightarrow> addr list \<Rightarrow> addr list" where
  "gt_part s key' xs = dropWhile (\<lambda>x. key_of s x \<le> key') xs"

definition pred_at :: "state \<Rightarrow> addr \<Rightarrow> keyType \<Rightarrow> addr list \<Rightarrow> int \<Rightarrow> addr" where
  "pred_at s h key' xs j = last (h # lev_filter s j (le_part s key' xs))"

definition succ_at :: "state \<Rightarrow> addr \<Rightarrow> keyType \<Rightarrow> addr list \<Rightarrow> int \<Rightarrow> addr" where
  "succ_at s h key' xs j = hd (lev_filter s j (gt_part s key' xs) @ [h])"

definition new_level :: "state \<Rightarrow> u64 \<Rightarrow> int" where
  "new_level s randseed =
     (if randomLevel randseed > l_level s then l_level s + 1 else randomLevel randseed)"

text \<open>
  The store \<open>s'\<close> after inserting node \<open>q\<close> into \<open>s\<close>, slot by slot.
\<close>

definition ins_post ::
    "addr \<Rightarrow> state \<Rightarrow> addr list \<Rightarrow> keyType \<Rightarrow> valueType \<Rightarrow> u64 \<Rightarrow> addr \<Rightarrow> state \<Rightarrow> bool" where
  "ins_post h s xs key' value' randseed q s' \<longleftrightarrow>
     l_level s' = max (l_level s) (new_level s randseed) \<and> l_header s' = l_header s \<and>
     dom (heap s') = insert q (dom (heap s)) \<and>
     level_of s' = (level_of s)(q := new_level s randseed) \<and>
     key_of s' = (key_of s)(q := key') \<and> value_of s' = (value_of s)(q := value') \<and>
     (\<forall>j. 0 \<le> j \<and> j \<le> new_level s randseed \<longrightarrow>
        nxt s' j = (nxt s j)(q \<mapsto> succ_at s h key' xs j, pred_at s h key' xs j \<mapsto> q) \<and>
        prv s' j = (prv s j)(q \<mapsto> pred_at s h key' xs j, succ_at s h key' xs j \<mapsto> q)) \<and>
     (\<forall>j. \<not> (0 \<le> j \<and> j \<le> new_level s randseed) \<longrightarrow>
        nxt s' j = nxt s j \<and> prv s' j = prv s j)"

text \<open>
  The nodes before and after node \<open>n\<close> in \<open>xs\<close>, the neighbours of \<open>n\<close> at level \<open>j\<close>, and the
  store \<open>s'\<close> after deleting \<open>n\<close> from \<open>s\<close>: slot by slot (\<open>del_heap\<close>), and with what the
  shrinking loop leaves as the height (\<open>del_post\<close>).
\<close>

definition before :: "addr \<Rightarrow> addr list \<Rightarrow> addr list" where
  "before n xs = takeWhile (\<lambda>x. x \<noteq> n) xs"

definition after :: "addr \<Rightarrow> addr list \<Rightarrow> addr list" where
  "after n xs = tl (dropWhile (\<lambda>x. x \<noteq> n) xs)"

definition del_pred :: "state \<Rightarrow> addr \<Rightarrow> addr list \<Rightarrow> addr \<Rightarrow> int \<Rightarrow> addr" where
  "del_pred s h xs n j = last (h # lev_filter s j (before n xs))"

definition del_succ :: "state \<Rightarrow> addr \<Rightarrow> addr list \<Rightarrow> addr \<Rightarrow> int \<Rightarrow> addr" where
  "del_succ s h xs n j = hd (lev_filter s j (after n xs) @ [h])"

definition del_heap :: "addr \<Rightarrow> state \<Rightarrow> addr list \<Rightarrow> addr \<Rightarrow> state \<Rightarrow> bool" where
  "del_heap h s xs n s' \<longleftrightarrow>
     l_header s' = l_header s \<and> dom (heap s') = dom (heap s) - {n} \<and>
     level_of s' = (level_of s)(n := 0) \<and> key_of s' = (key_of s)(n := 0) \<and>
     value_of s' = (value_of s)(n := NULL) \<and>
     (\<forall>j. 0 \<le> j \<and> j \<le> level_of s n \<longrightarrow>
        nxt s' j = ((nxt s j)(del_pred s h xs n j \<mapsto> del_succ s h xs n j))(n := None) \<and>
        prv s' j = ((prv s j)(del_succ s h xs n j \<mapsto> del_pred s h xs n j))(n := None)) \<and>
     (\<forall>j. \<not> (0 \<le> j \<and> j \<le> level_of s n) \<longrightarrow>
        nxt s' j = (nxt s j)(n := None) \<and> prv s' j = (prv s j)(n := None))"

definition del_post :: "addr \<Rightarrow> state \<Rightarrow> addr list \<Rightarrow> addr \<Rightarrow> state \<Rightarrow> bool" where
  "del_post h s xs n s' \<longleftrightarrow>
     del_heap h s xs n s' \<and> 0 \<le> l_level s' \<and> l_level s' \<le> l_level s \<and>
     (\<forall>x \<in> set (remove1 n xs). level_of s x \<le> l_level s') \<and>
     (l_level s' = 0 \<or> (\<exists>x \<in> set (remove1 n xs). level_of s x = l_level s'))"

text \<open>
  The states a caller can reach: \<open>reachable slnode s H\<close> says that \<open>s\<close> comes from a freshly
  constructed list with sentinel \<open>slnode\<close> by inserts that returned and deletes of handles
  that an insert returned and no delete has taken since; \<open>H\<close> is the set of those live
  handles.  The allocator never returns an address that is still allocated.
\<close>

inductive reachable :: "addr \<Rightarrow> state \<Rightarrow> addr set \<Rightarrow> bool" where
  init: "skiplist_init newNode Map.empty = Inr (hp, slnode) \<Longrightarrow>
         reachable slnode (new_skiplist hp slnode) {}"
| ins: "reachable slnode s H \<Longrightarrow> newNode \<notin> dom (heap s) \<Longrightarrow>
         skiplist_insert slnode s key' value' randseed newNode = Some (Inr (s', q)) \<Longrightarrow>
         reachable slnode s' (insert q H)"
| del: "reachable slnode s H \<Longrightarrow> node \<in> H \<Longrightarrow>
         skiplist_delnode slnode s node = Inr s' \<Longrightarrow>
         reachable slnode s' (H - {node})"

text \<open>
  The circular sorted chain of level \<open>k\<close>: following \<open>next[k]\<close> from the sentinel visits the
  nodes \<open>xs\<close> (none of them the sentinel) and returns to the sentinel, \<open>prev[k]\<close> mirrors
  each step, and the keys visited are non-decreasing.
\<close>

definition sorted_chain :: "addr \<Rightarrow> state \<Rightarrow> int \<Rightarrow> bool" where
  "sorted_chain h s k \<longleftrightarrow>
     (\<exists>xs. lnk (nxt s k) (prv s k) h xs h \<and> h \<notin> set xs \<and> sorted (map (key_of s) xs))"

text \<open>
  Example states: a fresh list whose sentinel is at the given address, and the store after
  an insert or a delete that returns (the store itself when it does not).
\<close>

definition fresh_list :: "addr \<Rightarrow> state" where
  "fresh_list newNode =
     new_skiplist
       (case skiplist_init newNode Map.empty of Inr (hp, slnode) \<Rightarrow> hp | Inl e \<Rightarrow> Map.empty)
       newNode"

definition after_insert :: "addr \<Rightarrow> state \<Rightarrow> keyType \<Rightarrow> valueType \<Rightarrow> u64 \<Rightarrow> addr \<Rightarrow> state" where
  "after_insert slnode s key' value' randseed newNode =
     (case skiplist_insert slnode s key' value' randseed newNode of
        Some (Inr (s', q)) \<Rightarrow> s'
      | _ \<Rightarrow> s)"

definition after_delete :: "addr \<Rightarrow> state \<Rightarrow> addr \<Rightarrow> state" where
  "after_delete slnode s node =
     (case skiplist_delnode slnode s node of Inr s' \<Rightarrow> s' | Inl e \<Rightarrow> s)"

text \<open>
  The states of the scenario ``insert keys 5, 3, 8 with levels 0, 1, 0'': sentinel at address
  1, nodes at addresses 2, 3, 4 (entropy 1 gives level 0, entropy 4 gives level 1).
\<close>

definition ex1 :: state where
  "ex1 = after_insert 1 (fresh_list 1) 5 50 1 2"

definition ex2 :: state where
  "ex2 = after_insert 1 ex1 3 30 4 3"

definition ex3 :: state where
  "ex3 = after_insert 1 ex2 8 80 1 4"

text \<open>
  The states of the scenario ``insert key 10 twice'': value 100 first (node at address 2),
  then value 200 (node at address 3).  The entropy 4 gives both nodes level 1, so that the
  order shows at two levels.
\<close>

definition fifo1 :: state where
  "fifo1 = after_insert 1 (fresh_list 1) 10 100 4 2"

definition fifo2 :: state where
  "fifo2 = after_insert 1 fifo1 10 200 4 3"

text \<open>
  The states of the scenario ``delete the only node of the top level'': a node of level 1
  at address 2, a node of level 2 at address 3 (entropy 16), then the first node deleted, so
  that the node at address 3 alone holds levels 0, 1 and 2.
\<close>

definition top1 :: state where
  "top1 = after_insert 1 (fresh_list 1) 5 50 4 2"

definition top2 :: state where
  "top2 = after_insert 1 top1 7 70 16 3"

definition top3 :: state where
  "top3 = after_delete 1 top2 2"

text \<open>
  Running a list of inserts (key, value, entropy and the allocator's answer for each),
  collecting the returned handles, and a list of deletes by handle.
\<close>

fun insert_all ::
    "addr \<Rightarrow> state \<Rightarrow> (keyType \<times> valueType \<times> u64 \<times> addr) list \<Rightarrow>
       (fault + state \<times> addr list) option" where
  "insert_all slnode s [] = Some (Inr (s, []))"
| "insert_all slnode s ((key', value', randseed, newNode) # rest) =
     (case skiplist_insert slnode s key' value' randseed newNode of
        None \<Rightarrow> None
      | Some (Inl e) \<Rightarrow> Some (Inl e)
      | Some (Inr (s', q)) \<Rightarrow>
          (case insert_all slnode s' rest of
             None \<Rightarrow> None
           | Some (Inl e) \<Rightarrow> Some (Inl e)
           | Some (Inr (s'', qs)) \<Rightarrow> Some (Inr (s'', q # qs))))"

fun delete_all :: "addr \<Rightarrow> state \<Rightarrow> addr list \<Rightarrow> fault + state" where
  "delete_all slnode s [] = Inr s"
| "delete_all slnode s (node # nodes) =
     (case skiplist_delnode slnode s node of
        Inl e \<Rightarrow> Inl e
      | Inr s' \<Rightarrow> delete_all slnode s' nodes)"

section \<open>Level randomization: proofs\<close>

lemma and3_zero_iff: "(r :: u64) AND 3 = 0 \<longleftrightarrow> \<not> bit r 0 \<and> \<not> bit r 1"
proof -
  have b3: "bit (3 :: u64) i \<longleftrightarrow> i < 2" for i
  proof -
    have e: "(3 :: u64) = mask 2" by (simp add: mask_eq_exp_minus_1)
    show ?thesis by (subst e) (auto simp add: bit_mask_iff simp del: mask_numeral)
  qed
  show ?thesis
  proof
    assume a: "r AND 3 = 0"
    have "\<not> bit (r AND 3) 0" "\<not> bit (r AND 3) 1" using a by simp_all
    then show "\<not> bit r 0 \<and> \<not> bit r 1" by (simp add: bit_and_iff b3)
  next
    assume a: "\<not> bit r 0 \<and> \<not> bit r 1"
    show "r AND 3 = 0"
    proof (rule bit_eqI)
      fix i
      show "bit (r AND 3) i = bit (0 :: u64) i"
        using a b3 [of i] by (cases "i = 0"; cases "i = 1") (auto simp add: bit_and_iff)
    qed
  qed
qed

lemma randomLevel_loop_pairs:
  "(\<forall>i < 2 * n. \<not> bit r i) \<Longrightarrow> bit r (2 * n) \<or> bit r (2 * n + 1) \<Longrightarrow>
   randomLevel_loop r l = l + int n"
proof (induction n arbitrary: r l)
  case 0
  then have "r AND 3 \<noteq> 0" by (simp add: and3_zero_iff)
  then show ?case by simp
next
  case (Suc n)
  have z: "r AND 3 = 0" using Suc.prems(1) by (simp add: and3_zero_iff)
  have nz: "r \<noteq> 0" using Suc.prems(2) by auto
  have b: "bit (drop_bit 2 r) i = bit r (i + 2)" for i
    by (simp add: bit_drop_bit_eq add.commute)
  have "randomLevel_loop (drop_bit 2 r) (l + 1) = (l + 1) + int n"
  proof (rule Suc.IH)
    show "\<forall>i<2 * n. \<not> bit (drop_bit 2 r) i" using Suc.prems(1) by (simp add: b)
    show "bit (drop_bit 2 r) (2 * n) \<or> bit (drop_bit 2 r) (2 * n + 1)"
      using Suc.prems(2) by (simp add: b)
  qed
  then show ?case using z nz by simp
qed

lemma randomLevel_loop_zero: "randomLevel_loop 0 l = l"
  by simp

lemma trailing_zero_pairs_props:
  assumes "r \<noteq> 0"
  shows "(\<forall>i < 2 * trailing_zero_pairs r. \<not> bit r i) \<and>
         (bit r (2 * trailing_zero_pairs r) \<or> bit r (2 * trailing_zero_pairs r + 1)) \<and>
         trailing_zero_pairs r < 32"
proof -
  let ?P = "\<lambda>i. \<not> bit r (2 * i) \<and> \<not> bit r (2 * i + 1)"
  let ?n = "trailing_zero_pairs r"
  have n_def: "?n = length (takeWhile ?P [0..<32])" by (simp add: trailing_zero_pairs_def)
  have le: "?n \<le> 32" unfolding n_def using length_takeWhile_le [of ?P "[0..<32]"] by simp
  have pre: "?P j" if "j < ?n" for j
  proof -
    have "takeWhile ?P [0..<32] ! j \<in> set (takeWhile ?P [0..<32])"
      using that unfolding n_def by (rule nth_mem)
    moreover have "takeWhile ?P [0..<32] ! j = [0..<32] ! j"
      using that unfolding n_def by (rule takeWhile_nth)
    moreover have "[0..<32] ! j = j" using that le by simp
    ultimately show ?thesis using set_takeWhileD by fastforce
  qed
  have low: "\<not> bit r i" if "i < 2 * ?n" for i
  proof -
    have "i div 2 < ?n" using that by auto
    from pre [OF this] show ?thesis by (cases "even i") (auto elim: evenE oddE)
  qed
  have lt: "?n < 32"
  proof (rule ccontr)
    assume "\<not> ?n < 32"
    then have "?n = 32" using le by simp
    then have "\<forall>i < 64. \<not> bit r i" using low by simp
    then have "r = 0" by (intro bit_eqI) (auto dest: bit_imp_le_length)
    then show False using assms by simp
  qed
  have "\<not> ?P ([0..<32] ! ?n)"
    unfolding n_def by (rule nth_length_takeWhile) (use lt n_def in simp)
  then have "bit r (2 * ?n) \<or> bit r (2 * ?n + 1)" using lt by simp
  then show ?thesis using low lt by blast
qed

text \<open>
  C4.  \<open>randomLevel\<close> is a function of its argument alone, its value is in \<open>0..15\<close>, it
  is 0 on entropy 0, and on any other entropy it is the number of trailing zero bit-pairs
  (the number of times the loop shifts), capped at 15.
\<close>

theorem randomLevel_spec:
  "randomLevel r = (if r = 0 then 0 else min 15 (int (trailing_zero_pairs r))) \<and>
   0 \<le> randomLevel r \<and> randomLevel r \<le> 15"
proof (cases "r = 0")
  case True
  then show ?thesis by (simp add: randomLevel_def MaxLevel_def MaxNumberOfLevels_def)
next
  case False
  from trailing_zero_pairs_props [OF False]
  have "randomLevel_loop r 0 = 0 + int (trailing_zero_pairs r)"
    by (intro randomLevel_loop_pairs) auto
  then show ?thesis using False
    by (simp add: randomLevel_def MaxLevel_def MaxNumberOfLevels_def Let_def)
qed

theorem randomLevel_spec_witness:
  "randomLevel 0 = 0 \<and> randomLevel 16 = 2 \<and> randomLevel 5 = 0 \<and>
   randomLevel 0x1000000000000000 = 15"
proof -
  have "trailing_zero_pairs 16 = 2" "trailing_zero_pairs 5 = 0"
    "trailing_zero_pairs 0x1000000000000000 = 30"
    by code_simp+
  then show ?thesis
    using randomLevel_spec [of 0] randomLevel_spec [of 16] randomLevel_spec [of 5]
      randomLevel_spec [of "0x1000000000000000"]
    by simp
qed

section \<open>The store and doubly linked paths\<close>

declare init_links.simps [simp del] find_update.simps [simp del] splice.simps [simp del]
  unlink.simps [simp del] shrink.simps [simp del]

subsection \<open>Reading and writing the store\<close>

lemma same_fields_refl: "same_fields s s"
  by (simp add: same_fields_def)

lemma same_fields_trans: "same_fields s s' \<Longrightarrow> same_fields s' s'' \<Longrightarrow> same_fields s s''"
  by (simp add: same_fields_def)

lemma nxt_dom: "nxt s k p = Some r \<Longrightarrow> p \<in> dom (heap s)"
  by (auto simp: nxt_def split: option.splits)

lemma prv_dom: "prv s k p = Some r \<Longrightarrow> p \<in> dom (heap s)"
  by (auto simp: prv_def split: option.splits)

lemma get_node_ok: "p \<noteq> NULL \<Longrightarrow> heap s p = Some n \<Longrightarrow> get_node s p = Inr n"
  by (simp add: get_node_def)

lemma get_next_ok:
  "p \<noteq> NULL \<Longrightarrow> in_bounds k \<Longrightarrow> nxt s k p = Some r \<Longrightarrow> get_next s p k = Inr r"
  by (auto simp: get_next_def get_node_def nxt_def split: option.splits)

lemma get_prev_ok:
  "p \<noteq> NULL \<Longrightarrow> in_bounds k \<Longrightarrow> prv s k p = Some r \<Longrightarrow> get_prev s p k = Inr r"
  by (auto simp: get_prev_def get_node_def prv_def split: option.splits)

lemma set_next_ok:
  assumes "p \<noteq> NULL" "p \<in> dom (heap s)" "in_bounds k"
  shows "\<exists>s'. set_next s p k v = Inr s' \<and> same_fields s s' \<and>
           nxt s' k = (nxt s k)(p \<mapsto> v) \<and> (\<forall>j. j \<noteq> k \<longrightarrow> nxt s' j = nxt s j) \<and>
           (\<forall>j. prv s' j = prv s j)"
proof -
  from assms(2) obtain n where n: "heap s p = Some n" by auto
  let ?s = "s\<lparr>heap := (heap s)(p \<mapsto> n\<lparr>next := (next n)(k \<mapsto> v)\<rparr>)\<rparr>"
  have 1: "set_next s p k v = Inr ?s"
    using assms n by (simp add: set_next_def get_node_def)
  have 2: "same_fields s ?s"
    using n by (auto simp: same_fields_def level_of_def key_of_def value_of_def fun_eq_iff)
  have 3: "nxt ?s k = (nxt s k)(p \<mapsto> v)"
    using n by (auto simp: nxt_def fun_eq_iff)
  have 4: "j \<noteq> k \<Longrightarrow> nxt ?s j = nxt s j" for j
    using n by (auto simp: nxt_def fun_eq_iff)
  have 5: "prv ?s j = prv s j" for j
    using n by (auto simp: prv_def fun_eq_iff)
  show ?thesis using 1 2 3 4 5 by blast
qed

lemma set_prev_ok:
  assumes "p \<noteq> NULL" "p \<in> dom (heap s)" "in_bounds k"
  shows "\<exists>s'. set_prev s p k v = Inr s' \<and> same_fields s s' \<and>
           prv s' k = (prv s k)(p \<mapsto> v) \<and> (\<forall>j. j \<noteq> k \<longrightarrow> prv s' j = prv s j) \<and>
           (\<forall>j. nxt s' j = nxt s j)"
proof -
  from assms(2) obtain n where n: "heap s p = Some n" by auto
  let ?s = "s\<lparr>heap := (heap s)(p \<mapsto> n\<lparr>prev := (prev n)(k \<mapsto> v)\<rparr>)\<rparr>"
  have 1: "set_prev s p k v = Inr ?s"
    using assms n by (simp add: set_prev_def get_node_def)
  have 2: "same_fields s ?s"
    using n by (auto simp: same_fields_def level_of_def key_of_def value_of_def fun_eq_iff)
  have 3: "prv ?s k = (prv s k)(p \<mapsto> v)"
    using n by (auto simp: prv_def fun_eq_iff)
  have 4: "j \<noteq> k \<Longrightarrow> prv ?s j = prv s j" for j
    using n by (auto simp: prv_def fun_eq_iff)
  have 5: "nxt ?s j = nxt s j" for j
    using n by (auto simp: nxt_def fun_eq_iff)
  show ?thesis using 1 2 3 4 5 by blast
qed

subsection \<open>Doubly linked paths\<close>

lemma lnk_split:
  "lnk nx pv p (xs @ y # ys) z \<longleftrightarrow> lnk nx pv p xs y \<and> lnk nx pv y ys z"
  by (induction xs arbitrary: p) auto

lemma lnk_prefix: "lnk nx pv p (xs @ ys) z \<Longrightarrow> lnk nx pv p xs (hd (ys @ [z]))"
  by (cases ys) (auto simp: lnk_split)

lemma lnk_suffix: "lnk nx pv p (xs @ ys) z \<Longrightarrow> lnk nx pv (last (p # xs)) ys z"
proof (induction xs arbitrary: p)
  case Nil
  then show ?case by simp
next
  case (Cons x xs)
  then show ?case by auto
qed

lemma lnk_mid:
  assumes "lnk nx pv p (xs @ ys) z"
  shows "nx (last (p # xs)) = Some (hd (ys @ [z])) \<and> pv (hd (ys @ [z])) = Some (last (p # xs))"
proof -
  from lnk_suffix [OF assms] show ?thesis by (cases ys) auto
qed

lemma lnk_frame:
  assumes "\<forall>a \<in> set (p # xs). nx' a = nx a" "\<forall>a \<in> set (xs @ [z]). pv' a = pv a"
  shows "lnk nx' pv' p xs z = lnk nx pv p xs z"
  using assms by (induction xs arbitrary: p) auto

lemma lnk_nx_dom: "lnk nx pv p xs z \<Longrightarrow> a \<in> set (p # xs) \<Longrightarrow> a \<in> dom nx"
  by (induction xs arbitrary: p) auto

lemma lnk_splice:
  assumes "lnk nx pv a (ys @ zs) z" "distinct (a # ys @ zs)" "z \<notin> set (ys @ zs)"
    "q \<notin> set (a # ys @ zs)" "q \<noteq> z"
    and "nx' q = Some (hd (zs @ [z]))" "nx' (last (a # ys)) = Some q"
    and "pv' q = Some (last (a # ys))" "pv' (hd (zs @ [z])) = Some q"
    and "\<forall>x. x \<noteq> q \<and> x \<noteq> last (a # ys) \<longrightarrow> nx' x = nx x"
    and "\<forall>x. x \<noteq> q \<and> x \<noteq> hd (zs @ [z]) \<longrightarrow> pv' x = pv x"
  shows "lnk nx' pv' a (ys @ q # zs) z"
  using assms
proof (induction ys arbitrary: a)
  case Nil
  show ?case
  proof (cases zs)
    case Nil
    then show ?thesis using Nil.prems by simp
  next
    case (Cons b bs)
    have "lnk nx pv b bs z" using Nil.prems Cons by simp
    moreover have "lnk nx' pv' b bs z = lnk nx pv b bs z"
      by (rule lnk_frame) (use Nil.prems Cons in auto)
    ultimately show ?thesis using Nil.prems Cons by simp
  qed
next
  case (Cons y ys)
  let ?p = "last (y # ys)"
  let ?c = "hd (zs @ [z])"
  have IH: "lnk nx' pv' y (ys @ q # zs) z"
    by (rule Cons.IH) (use Cons.prems in auto)
  have p_in: "?p \<in> set (y # ys)" by (rule last_in_set) simp
  have c_in: "?c \<in> set (zs @ [z])" by (rule hd_in_set) simp
  have 1: "a \<noteq> q" "a \<noteq> ?p" using Cons.prems p_in by auto
  have 2: "y \<noteq> q" "y \<noteq> ?c" using Cons.prems c_in by auto
  have "nx a = Some y" "pv y = Some a" using Cons.prems by auto
  moreover have "nx' a = nx a" using Cons.prems(10) 1 by simp
  moreover have "pv' y = pv y" using Cons.prems(11) 2 by simp
  ultimately show ?case using IH by simp
qed

lemma lnk_unlink:
  assumes "lnk nx pv a (ys @ n # zs) z" "distinct (a # ys @ n # zs)" "z \<notin> set (ys @ n # zs)"
    and "nx' (last (a # ys)) = Some (hd (zs @ [z]))"
    and "pv' (hd (zs @ [z])) = Some (last (a # ys))"
    and "\<forall>x. x \<noteq> n \<and> x \<noteq> last (a # ys) \<longrightarrow> nx' x = nx x"
    and "\<forall>x. x \<noteq> n \<and> x \<noteq> hd (zs @ [z]) \<longrightarrow> pv' x = pv x"
  shows "lnk nx' pv' a (ys @ zs) z"
  using assms
proof (induction ys arbitrary: a)
  case Nil
  show ?case
  proof (cases zs)
    case Nil
    then show ?thesis using Nil.prems by simp
  next
    case (Cons b bs)
    have "lnk nx pv b bs z" using Nil.prems Cons by simp
    moreover have "lnk nx' pv' b bs z = lnk nx pv b bs z"
      by (rule lnk_frame) (use Nil.prems Cons in auto)
    ultimately show ?thesis using Nil.prems Cons by simp
  qed
next
  case (Cons y ys)
  let ?p = "last (y # ys)"
  let ?c = "hd (zs @ [z])"
  have IH: "lnk nx' pv' y (ys @ zs) z"
    by (rule Cons.IH) (use Cons.prems in auto)
  have p_in: "?p \<in> set (y # ys)" by (rule last_in_set) simp
  have c_in: "?c \<in> set (zs @ [z])" by (rule hd_in_set) simp
  have 1: "a \<noteq> n" "a \<noteq> ?p" using Cons.prems p_in by auto
  have 2: "y \<noteq> n" "y \<noteq> ?c" using Cons.prems c_in by auto
  have "nx a = Some y" "pv y = Some a" using Cons.prems by auto
  moreover have "nx' a = nx a" using Cons.prems(6) 1 by simp
  moreover have "pv' y = pv y" using Cons.prems(7) 2 by simp
  ultimately show ?case using IH by simp
qed

lemma lnk_empty_iff:
  assumes "lnk nx pv h xs h" "h \<notin> set xs"
  shows "nx h = Some h \<longleftrightarrow> xs = []" and "pv h = Some h \<longleftrightarrow> xs = []"
proof -
  show "nx h = Some h \<longleftrightarrow> xs = []" using assms by (cases xs) auto
  show "pv h = Some h \<longleftrightarrow> xs = []"
  proof (cases xs rule: rev_cases)
    case Nil
    then show ?thesis using assms by simp
  next
    case (snoc ys y)
    then have "lnk nx pv y [] h" using assms lnk_suffix [of nx pv h "ys @ [y]" "[]" h] by simp
    then show ?thesis using snoc assms by auto
  qed
qed

section \<open>The loops\<close>

subsection \<open>The splicing loop\<close>

lemma splice_step:
  assumes k: "in_bounds k" and q: "q \<in> dom (heap s)" and z: "NULL \<notin> dom (heap s)"
    and pc: "nxt s k p = Some c" and pq: "p \<noteq> q" and c: "c \<in> dom (heap s)"
  shows "\<exists>s1 s2 s3 s4. get_next s p k = Inr c \<and> set_next s q k c = Inr s1 \<and>
           set_next s1 p k q = Inr s2 \<and> set_prev s2 q k p = Inr s3 \<and>
           get_next s3 q k = Inr c \<and> set_prev s3 c k q = Inr s4 \<and> same_fields s s4 \<and>
           nxt s4 k = (nxt s k)(q \<mapsto> c, p \<mapsto> q) \<and> prv s4 k = (prv s k)(q \<mapsto> p, c \<mapsto> q) \<and>
           (\<forall>j. j \<noteq> k \<longrightarrow> nxt s4 j = nxt s j \<and> prv s4 j = prv s j)"
proof -
  have p: "p \<in> dom (heap s)" using pc by (rule nxt_dom)
  have nz: "p \<noteq> NULL" "q \<noteq> NULL" "c \<noteq> NULL" using p q c z by auto
  have g0: "get_next s p k = Inr c" using nz k pc by (simp add: get_next_ok)
  obtain s1 where s1: "set_next s q k c = Inr s1" "same_fields s s1"
    "nxt s1 k = (nxt s k)(q \<mapsto> c)" "\<forall>j. j \<noteq> k \<longrightarrow> nxt s1 j = nxt s j" "\<forall>j. prv s1 j = prv s j"
    using set_next_ok [OF nz(2) q k, of c] by blast
  have d1: "dom (heap s1) = dom (heap s)" using s1(2) by (simp add: same_fields_def)
  obtain s2 where s2: "set_next s1 p k q = Inr s2" "same_fields s1 s2"
    "nxt s2 k = (nxt s1 k)(p \<mapsto> q)" "\<forall>j. j \<noteq> k \<longrightarrow> nxt s2 j = nxt s1 j" "\<forall>j. prv s2 j = prv s1 j"
    using set_next_ok [OF nz(1) _ k, of s1 q] p d1 by blast
  have d2: "dom (heap s2) = dom (heap s)" using s2(2) d1 by (simp add: same_fields_def)
  obtain s3 where s3: "set_prev s2 q k p = Inr s3" "same_fields s2 s3"
    "prv s3 k = (prv s2 k)(q \<mapsto> p)" "\<forall>j. j \<noteq> k \<longrightarrow> prv s3 j = prv s2 j" "\<forall>j. nxt s3 j = nxt s2 j"
    using set_prev_ok [OF nz(2) _ k, of s2 p] q d2 by blast
  have d3: "dom (heap s3) = dom (heap s)" using s3(2) d2 by (simp add: same_fields_def)
  have n3: "nxt s3 k q = Some c" using s3(5) s2(3) s1(3) pq by simp
  have g3: "get_next s3 q k = Inr c" using nz k n3 by (simp add: get_next_ok)
  obtain s4 where s4: "set_prev s3 c k q = Inr s4" "same_fields s3 s4"
    "prv s4 k = (prv s3 k)(c \<mapsto> q)" "\<forall>j. j \<noteq> k \<longrightarrow> prv s4 j = prv s3 j" "\<forall>j. nxt s4 j = nxt s3 j"
    using set_prev_ok [OF nz(3) _ k, of s3 q] c d3 by blast
  have sf: "same_fields s s4"
    using s1(2) s2(2) s3(2) s4(2) by (blast intro: same_fields_trans)
  have nx: "nxt s4 k = (nxt s k)(q \<mapsto> c, p \<mapsto> q)"
    using s4(5) s3(5) s2(3) s1(3) by simp
  have pv: "prv s4 k = (prv s k)(q \<mapsto> p, c \<mapsto> q)"
    using s4(3) s3(3) s2(5) s1(5) by simp
  have oth: "\<forall>j. j \<noteq> k \<longrightarrow> nxt s4 j = nxt s j \<and> prv s4 j = prv s j"
    using s4(4,5) s3(4,5) s2(4,5) s1(4,5) by simp
  show ?thesis using g0 s1(1) s2(1) s3(1) g3 s4(1) sf nx pv oth by blast
qed

lemma splice_ok:
  assumes "in_bounds k" "q \<in> dom (heap s)" "NULL \<notin> dom (heap s)"
    and "\<forall>j. 0 \<le> j \<and> j \<le> k \<longrightarrow>
           update j = Some (P j) \<and> nxt s j (P j) = Some (C j) \<and> P j \<noteq> q \<and> C j \<in> dom (heap s)"
  shows "\<exists>s'. splice s q update k = Inr s' \<and> same_fields s s' \<and>
           (\<forall>j. 0 \<le> j \<and> j \<le> k \<longrightarrow>
              nxt s' j = (nxt s j)(q \<mapsto> C j, P j \<mapsto> q) \<and>
              prv s' j = (prv s j)(q \<mapsto> P j, C j \<mapsto> q)) \<and>
           (\<forall>j. \<not> (0 \<le> j \<and> j \<le> k) \<longrightarrow> nxt s' j = nxt s j \<and> prv s' j = prv s j)"
  using assms
proof (induction "nat k" arbitrary: k s)
  case 0
  then have k0: "k = 0" by (simp add: in_bounds_def)
  from 0(5) k0 have u: "update k = Some (P k)" "nxt s k (P k) = Some (C k)" "P k \<noteq> q"
    "C k \<in> dom (heap s)" by auto
  from splice_step [OF 0(2) 0(3) 0(4) u(2) u(3) u(4)]
  obtain s1 s2 s3 s4 where st: "get_next s (P k) k = Inr (C k)" "set_next s q k (C k) = Inr s1"
    "set_next s1 (P k) k q = Inr s2" "set_prev s2 q k (P k) = Inr s3"
    "get_next s3 q k = Inr (C k)" "set_prev s3 (C k) k q = Inr s4" "same_fields s s4"
    "nxt s4 k = (nxt s k)(q \<mapsto> C k, P k \<mapsto> q)" "prv s4 k = (prv s k)(q \<mapsto> P k, C k \<mapsto> q)"
    "\<forall>j. j \<noteq> k \<longrightarrow> nxt s4 j = nxt s j \<and> prv s4 j = prv s j"
    by blast
  have km: "\<not> 0 < k" using k0 by simp
  have "splice s q update k = Inr s4"
    by (subst splice.simps) (simp add: 0(2) u(1) st km)
  moreover have "\<forall>j. 0 \<le> j \<and> j \<le> k \<longrightarrow>
      nxt s4 j = (nxt s j)(q \<mapsto> C j, P j \<mapsto> q) \<and> prv s4 j = (prv s j)(q \<mapsto> P j, C j \<mapsto> q)"
    using st(8,9) k0 by auto
  moreover have "\<forall>j. \<not> (0 \<le> j \<and> j \<le> k) \<longrightarrow> nxt s4 j = nxt s j \<and> prv s4 j = prv s j"
    using st(10) k0 by auto
  ultimately show ?case using st(7) by blast
next
  case (Suc n)
  then have kp: "0 < k" "k - 1 \<ge> 0" "n = nat (k - 1)" by auto
  from Suc(6) kp have u: "update k = Some (P k)" "nxt s k (P k) = Some (C k)" "P k \<noteq> q"
    "C k \<in> dom (heap s)" by auto
  from splice_step [OF Suc(3) Suc(4) Suc(5) u(2) u(3) u(4)]
  obtain s1 s2 s3 s4 where st: "get_next s (P k) k = Inr (C k)" "set_next s q k (C k) = Inr s1"
    "set_next s1 (P k) k q = Inr s2" "set_prev s2 q k (P k) = Inr s3"
    "get_next s3 q k = Inr (C k)" "set_prev s3 (C k) k q = Inr s4" "same_fields s s4"
    "nxt s4 k = (nxt s k)(q \<mapsto> C k, P k \<mapsto> q)" "prv s4 k = (prv s k)(q \<mapsto> P k, C k \<mapsto> q)"
    "\<forall>j. j \<noteq> k \<longrightarrow> nxt s4 j = nxt s j \<and> prv s4 j = prv s j"
    by blast
  have d4: "dom (heap s4) = dom (heap s)" using st(7) by (simp add: same_fields_def)
  have "\<exists>s'. splice s4 q update (k - 1) = Inr s' \<and> same_fields s4 s' \<and>
           (\<forall>j. 0 \<le> j \<and> j \<le> k - 1 \<longrightarrow>
              nxt s' j = (nxt s4 j)(q \<mapsto> C j, P j \<mapsto> q) \<and>
              prv s' j = (prv s4 j)(q \<mapsto> P j, C j \<mapsto> q)) \<and>
           (\<forall>j. \<not> (0 \<le> j \<and> j \<le> k - 1) \<longrightarrow> nxt s' j = nxt s4 j \<and> prv s' j = prv s4 j)"
  proof (rule Suc(1))
    show "n = nat (k - 1)" by (rule kp(3))
    show "in_bounds (k - 1)" using Suc(3) kp by (simp add: in_bounds_def)
    show "q \<in> dom (heap s4)" using Suc(4) d4 by simp
    show "NULL \<notin> dom (heap s4)" using Suc(5) d4 by simp
    show "\<forall>j. 0 \<le> j \<and> j \<le> k - 1 \<longrightarrow>
        update j = Some (P j) \<and> nxt s4 j (P j) = Some (C j) \<and> P j \<noteq> q \<and> C j \<in> dom (heap s4)"
      using Suc(6) st(10) d4 by auto
  qed
  then obtain s' where s': "splice s4 q update (k - 1) = Inr s'" "same_fields s4 s'"
    "\<forall>j. 0 \<le> j \<and> j \<le> k - 1 \<longrightarrow>
       nxt s' j = (nxt s4 j)(q \<mapsto> C j, P j \<mapsto> q) \<and> prv s' j = (prv s4 j)(q \<mapsto> P j, C j \<mapsto> q)"
    "\<forall>j. \<not> (0 \<le> j \<and> j \<le> k - 1) \<longrightarrow> nxt s' j = nxt s4 j \<and> prv s' j = prv s4 j"
    by blast
  have "splice s q update k = Inr s'"
    by (subst splice.simps) (simp add: Suc(3) u(1) st kp s'(1))
  moreover have "same_fields s s'" using st(7) s'(2) by (rule same_fields_trans)
  moreover have "\<forall>j. 0 \<le> j \<and> j \<le> k \<longrightarrow>
      nxt s' j = (nxt s j)(q \<mapsto> C j, P j \<mapsto> q) \<and> prv s' j = (prv s j)(q \<mapsto> P j, C j \<mapsto> q)"
  proof (intro allI impI)
    fix j assume j: "0 \<le> j \<and> j \<le> k"
    show "nxt s' j = (nxt s j)(q \<mapsto> C j, P j \<mapsto> q) \<and> prv s' j = (prv s j)(q \<mapsto> P j, C j \<mapsto> q)"
    proof (cases "j = k")
      case True
      then show ?thesis using s'(4) st(8,9) by simp
    next
      case False
      then show ?thesis using j s'(3) st(10) by simp
    qed
  qed
  moreover have "\<forall>j. \<not> (0 \<le> j \<and> j \<le> k) \<longrightarrow> nxt s' j = nxt s j \<and> prv s' j = prv s j"
    using s'(4) st(10) kp by auto
  ultimately show ?case by blast
qed

subsection \<open>The unlinking loop\<close>

lemma unlink_step:
  assumes k: "in_bounds k" and n: "n \<in> dom (heap s)" and z: "NULL \<notin> dom (heap s)"
    and pp: "prv s k n = Some p" and cc: "nxt s k n = Some c" and pn: "p \<noteq> n"
    and p: "p \<in> dom (heap s)" and c: "c \<in> dom (heap s)"
  shows "\<exists>s1 s2. get_prev s n k = Inr p \<and> get_next s n k = Inr c \<and> set_next s p k c = Inr s1 \<and>
           get_next s1 n k = Inr c \<and> get_prev s1 n k = Inr p \<and> set_prev s1 c k p = Inr s2 \<and>
           same_fields s s2 \<and>
           nxt s2 k = (nxt s k)(p \<mapsto> c) \<and> prv s2 k = (prv s k)(c \<mapsto> p) \<and>
           (\<forall>j. j \<noteq> k \<longrightarrow> nxt s2 j = nxt s j \<and> prv s2 j = prv s j)"
proof -
  have nz: "p \<noteq> NULL" "n \<noteq> NULL" "c \<noteq> NULL" using p n c z by auto
  have g0: "get_prev s n k = Inr p" using nz k pp by (simp add: get_prev_ok)
  have g1: "get_next s n k = Inr c" using nz k cc by (simp add: get_next_ok)
  obtain s1 where s1: "set_next s p k c = Inr s1" "same_fields s s1"
    "nxt s1 k = (nxt s k)(p \<mapsto> c)" "\<forall>j. j \<noteq> k \<longrightarrow> nxt s1 j = nxt s j" "\<forall>j. prv s1 j = prv s j"
    using set_next_ok [OF nz(1) p k, of c] by blast
  have d1: "dom (heap s1) = dom (heap s)" using s1(2) by (simp add: same_fields_def)
  have "nxt s1 k n = Some c" using s1(3) cc pn by simp
  then have g2: "get_next s1 n k = Inr c" using nz k by (simp add: get_next_ok)
  have "prv s1 k n = Some p" using s1(5) pp by simp
  then have g3: "get_prev s1 n k = Inr p" using nz k by (simp add: get_prev_ok)
  obtain s2 where s2: "set_prev s1 c k p = Inr s2" "same_fields s1 s2"
    "prv s2 k = (prv s1 k)(c \<mapsto> p)" "\<forall>j. j \<noteq> k \<longrightarrow> prv s2 j = prv s1 j" "\<forall>j. nxt s2 j = nxt s1 j"
    using set_prev_ok [OF nz(3) _ k, of s1 p] c d1 by blast
  have sf: "same_fields s s2" using s1(2) s2(2) by (rule same_fields_trans)
  have nx: "nxt s2 k = (nxt s k)(p \<mapsto> c)" using s2(5) s1(3) by simp
  have pv: "prv s2 k = (prv s k)(c \<mapsto> p)" using s2(3) s1(5) by simp
  have oth: "\<forall>j. j \<noteq> k \<longrightarrow> nxt s2 j = nxt s j \<and> prv s2 j = prv s j"
    using s2(4,5) s1(4,5) by simp
  show ?thesis using g0 g1 s1(1) g2 g3 s2(1) sf nx pv oth by blast
qed

lemma unlink_ok:
  assumes "0 \<le> k" "m < MaxNumberOfLevels" "n \<in> dom (heap s)" "NULL \<notin> dom (heap s)"
    and "\<forall>j. k \<le> j \<and> j \<le> m \<longrightarrow>
           prv s j n = Some (P j) \<and> nxt s j n = Some (C j) \<and> P j \<noteq> n \<and>
           P j \<in> dom (heap s) \<and> C j \<in> dom (heap s)"
  shows "\<exists>s'. unlink s n k m = Inr s' \<and> same_fields s s' \<and>
           (\<forall>j. k \<le> j \<and> j \<le> m \<longrightarrow>
              nxt s' j = (nxt s j)(P j \<mapsto> C j) \<and> prv s' j = (prv s j)(C j \<mapsto> P j)) \<and>
           (\<forall>j. \<not> (k \<le> j \<and> j \<le> m) \<longrightarrow> nxt s' j = nxt s j \<and> prv s' j = prv s j)"
  using assms
proof (induction "nat (m + 1 - k)" arbitrary: k s)
  case 0
  then have km: "\<not> k \<le> m" by simp
  have "unlink s n k m = Inr s" by (subst unlink.simps) (simp add: km)
  then show ?case using km by (auto simp: same_fields_refl)
next
  case (Suc d)
  then have km: "k \<le> m" by simp
  have kb: "in_bounds k" using Suc(3,4) km by (simp add: in_bounds_def)
  from Suc(7) km have u: "prv s k n = Some (P k)" "nxt s k n = Some (C k)" "P k \<noteq> n"
    "P k \<in> dom (heap s)" "C k \<in> dom (heap s)" by auto
  from unlink_step [OF kb Suc(5) Suc(6) u]
  obtain s1 s2 where st: "get_prev s n k = Inr (P k)" "get_next s n k = Inr (C k)"
    "set_next s (P k) k (C k) = Inr s1" "get_next s1 n k = Inr (C k)"
    "get_prev s1 n k = Inr (P k)" "set_prev s1 (C k) k (P k) = Inr s2" "same_fields s s2"
    "nxt s2 k = (nxt s k)(P k \<mapsto> C k)" "prv s2 k = (prv s k)(C k \<mapsto> P k)"
    "\<forall>j. j \<noteq> k \<longrightarrow> nxt s2 j = nxt s j \<and> prv s2 j = prv s j"
    by blast
  have d2: "dom (heap s2) = dom (heap s)" using st(7) by (simp add: same_fields_def)
  have "\<exists>s'. unlink s2 n (k + 1) m = Inr s' \<and> same_fields s2 s' \<and>
           (\<forall>j. k + 1 \<le> j \<and> j \<le> m \<longrightarrow>
              nxt s' j = (nxt s2 j)(P j \<mapsto> C j) \<and> prv s' j = (prv s2 j)(C j \<mapsto> P j)) \<and>
           (\<forall>j. \<not> (k + 1 \<le> j \<and> j \<le> m) \<longrightarrow> nxt s' j = nxt s2 j \<and> prv s' j = prv s2 j)"
  proof (rule Suc(1))
    show "d = nat (m + 1 - (k + 1))" using Suc(2) by simp
    show "0 \<le> k + 1" using Suc(3) by simp
    show "m < MaxNumberOfLevels" by (rule Suc(4))
    show "n \<in> dom (heap s2)" using Suc(5) d2 by simp
    show "NULL \<notin> dom (heap s2)" using Suc(6) d2 by simp
    show "\<forall>j. k + 1 \<le> j \<and> j \<le> m \<longrightarrow>
        prv s2 j n = Some (P j) \<and> nxt s2 j n = Some (C j) \<and> P j \<noteq> n \<and>
        P j \<in> dom (heap s2) \<and> C j \<in> dom (heap s2)"
      using Suc(7) st(10) d2 by auto
  qed
  then obtain s' where s': "unlink s2 n (k + 1) m = Inr s'" "same_fields s2 s'"
    "\<forall>j. k + 1 \<le> j \<and> j \<le> m \<longrightarrow>
       nxt s' j = (nxt s2 j)(P j \<mapsto> C j) \<and> prv s' j = (prv s2 j)(C j \<mapsto> P j)"
    "\<forall>j. \<not> (k + 1 \<le> j \<and> j \<le> m) \<longrightarrow> nxt s' j = nxt s2 j \<and> prv s' j = prv s2 j"
    by blast
  have "unlink s n k m = Inr s'"
    by (subst unlink.simps) (simp add: km st s'(1))
  moreover have "same_fields s s'" using st(7) s'(2) by (rule same_fields_trans)
  moreover have "\<forall>j. k \<le> j \<and> j \<le> m \<longrightarrow>
      nxt s' j = (nxt s j)(P j \<mapsto> C j) \<and> prv s' j = (prv s j)(C j \<mapsto> P j)"
  proof (intro allI impI)
    fix j assume j: "k \<le> j \<and> j \<le> m"
    show "nxt s' j = (nxt s j)(P j \<mapsto> C j) \<and> prv s' j = (prv s j)(C j \<mapsto> P j)"
    proof (cases "j = k")
      case True
      then show ?thesis using s'(4) st(8,9) by simp
    next
      case False
      then show ?thesis using j s'(3) st(10) by simp
    qed
  qed
  moreover have "\<forall>j. \<not> (k \<le> j \<and> j \<le> m) \<longrightarrow> nxt s' j = nxt s j \<and> prv s' j = prv s j"
    using s'(4) st(10) km by auto
  ultimately show ?case by blast
qed

subsection \<open>The shrinking loop\<close>

lemma shrink_ok:
  assumes "l_header s = h" "h \<in> dom (heap s)" "NULL \<notin> dom (heap s)" "in_bounds m"
    and "\<forall>j. 0 \<le> j \<and> j \<le> m \<longrightarrow> nxt s j h \<noteq> None \<and> prv s j h \<noteq> None"
  shows "\<exists>r. shrink s h m = Inr r \<and> 0 \<le> r \<and> r \<le> m \<and>
           (\<forall>j. r < j \<and> j \<le> m \<longrightarrow> nxt s j h = Some h \<and> prv s j h = Some h) \<and>
           (r = 0 \<or> \<not> (nxt s r h = Some h \<and> prv s r h = Some h))"
  using assms
proof (induction "nat m" arbitrary: m)
  case 0
  then have m0: "m = 0" by (simp add: in_bounds_def)
  have hz: "h \<noteq> NULL" using 0(3,4) by auto
  from 0(6) m0 obtain a b where ab: "nxt s m h = Some a" "prv s m h = Some b" by auto
  have g: "get_next s h m = Inr a" "get_prev s h m = Inr b"
    using hz 0(5) ab by (simp_all add: get_next_ok get_prev_ok)
  have nm: "\<not> 0 < m" using m0 by simp
  have "shrink s h m = Inr m"
    by (subst shrink.simps) (simp add: 0(2) g nm)
  then show ?case using m0 by auto
next
  case (Suc d)
  then have mp: "0 < m" "d = nat (m - 1)" by auto
  have hz: "h \<noteq> NULL" using Suc(4,5) by auto
  from Suc(7) [rule_format, of m] mp obtain a b where ab: "nxt s m h = Some a" "prv s m h = Some b" by auto
  have g: "get_next s h m = Inr a" "get_prev s h m = Inr b"
    using hz Suc(6) ab by (simp_all add: get_next_ok get_prev_ok)
  show ?case
  proof (cases "a = h \<and> b = h")
    case False
    have "shrink s h m = Inr m"
      by (subst shrink.simps) (use False in \<open>auto simp add: Suc(3) g\<close>)
    then show ?thesis using mp False ab by auto
  next
    case True
    have "\<exists>r. shrink s h (m - 1) = Inr r \<and> 0 \<le> r \<and> r \<le> m - 1 \<and>
           (\<forall>j. r < j \<and> j \<le> m - 1 \<longrightarrow> nxt s j h = Some h \<and> prv s j h = Some h) \<and>
           (r = 0 \<or> \<not> (nxt s r h = Some h \<and> prv s r h = Some h))"
    proof (rule Suc(1))
      show "d = nat (m - 1)" by (rule mp(2))
      show "l_header s = h" by (rule Suc(3))
      show "h \<in> dom (heap s)" by (rule Suc(4))
      show "NULL \<notin> dom (heap s)" by (rule Suc(5))
      show "in_bounds (m - 1)" using Suc(6) mp by (simp add: in_bounds_def)
      show "\<forall>j. 0 \<le> j \<and> j \<le> m - 1 \<longrightarrow> nxt s j h \<noteq> None \<and> prv s j h \<noteq> None"
        using Suc(7) by simp
    qed
    then obtain r where r: "shrink s h (m - 1) = Inr r" "0 \<le> r" "r \<le> m - 1"
      "\<forall>j. r < j \<and> j \<le> m - 1 \<longrightarrow> nxt s j h = Some h \<and> prv s j h = Some h"
      "r = 0 \<or> \<not> (nxt s r h = Some h \<and> prv s r h = Some h)"
      by blast
    have "shrink s h m = Inr r"
      by (subst shrink.simps) (simp add: Suc(3) g True mp r(1))
    moreover have "\<forall>j. r < j \<and> j \<le> m \<longrightarrow> nxt s j h = Some h \<and> prv s j h = Some h"
    proof (intro allI impI)
      fix j assume j: "r < j \<and> j \<le> m"
      show "nxt s j h = Some h \<and> prv s j h = Some h"
      proof (cases "j = m")
        case True
        then show ?thesis using ab \<open>a = h \<and> b = h\<close> by simp
      next
        case False
        then show ?thesis using j r(4) by simp
      qed
    qed
    ultimately show ?thesis using r(2,3,5) by auto
  qed
qed

subsection \<open>The search\<close>

lemma search_level_ok:
  assumes "in_bounds k" "NULL \<notin> dom (heap s)" "lnk (nxt s k) (prv s k) p as z"
    "z \<in> dom (heap s)" "\<forall>a \<in> set as. key_of s a \<le> key'" "\<not> key_of s z \<le> key'"
  shows "search_level s key' k p = Some (Inr (last (p # as)))"
  using assms
proof (induction as arbitrary: p)
  case Nil
  then have pz: "nxt s k p = Some z" by simp
  then have "p \<in> dom (heap s)" by (rule nxt_dom)
  then have nz: "p \<noteq> NULL" "z \<noteq> NULL" using Nil(2,4) by auto
  have g: "get_next s p k = Inr z" using nz Nil(1) pz by (simp add: get_next_ok)
  from Nil(4) obtain zn where zn: "heap s z = Some zn" by auto
  then have gz: "get_node s z = Inr zn" using nz by (simp add: get_node_ok)
  have "\<not> key zn \<le> key'" using Nil(6) zn by (simp add: key_of_def)
  then show ?case by (subst search_level.simps) (simp add: g gz)
next
  case (Cons a as)
  then have pa: "nxt s k p = Some a" and rest: "lnk (nxt s k) (prv s k) a as z" by simp_all
  have "p \<in> dom (heap s)" using pa by (rule nxt_dom)
  moreover have ad: "a \<in> dom (heap s)"
    using lnk_nx_dom [OF rest, of a] nxt_dom [of s k a] by auto
  ultimately have nz: "p \<noteq> NULL" "a \<noteq> NULL" using Cons(3) by auto
  have g: "get_next s p k = Inr a" using nz Cons(2) pa by (simp add: get_next_ok)
  from ad obtain an where an: "heap s a = Some an" by auto
  then have ga: "get_node s a = Inr an" using nz by (simp add: get_node_ok)
  have le: "key an \<le> key'" using Cons(6) an by (simp add: key_of_def)
  have "search_level s key' k a = Some (Inr (last (a # as)))"
    by (rule Cons.IH) (use Cons.prems rest in auto)
  then show ?case by (subst search_level.simps) (simp add: g ga le)
qed

lemma find_update_ok:
  assumes "in_bounds k" "NULL \<notin> dom (heap s)" "h \<in> dom (heap s)" "\<not> key_of s h \<le> key'"
    and "\<forall>j. 0 \<le> j \<and> j \<le> k \<longrightarrow>
           lnk (nxt s j) (prv s j) h (A j @ B j) h \<and> set (B j) \<subseteq> dom (heap s) \<and>
           (\<forall>a \<in> set (A j). key_of s a \<le> key') \<and> (\<forall>b \<in> set (B j). \<not> key_of s b \<le> key')"
    and "\<forall>j. 0 \<le> j \<and> j < k \<longrightarrow>
           (\<exists>as1 as2. A j = as1 @ as2 \<and> last (h # as1) = last (h # A (j + 1)))"
    and "\<exists>as1 as2. A k = as1 @ as2 \<and> last (h # as1) = p"
  shows "find_update s key' k p update =
           Some (Inr (\<lambda>j. if 0 \<le> j \<and> j \<le> k then Some (last (h # A j)) else update j))"
  using assms
proof (induction "nat k" arbitrary: k p update)
  case 0
  then have k0: "k = 0" by (simp add: in_bounds_def)
  from 0(8) obtain as1 as2 where a: "A k = as1 @ as2" "last (h # as1) = p" by blast
  from 0(6) k0 have l: "lnk (nxt s k) (prv s k) h (A k @ B k) h" "set (B k) \<subseteq> dom (heap s)"
    "\<forall>a \<in> set (A k). key_of s a \<le> key'" "\<forall>b \<in> set (B k). \<not> key_of s b \<le> key'" by auto
  let ?z = "hd (B k @ [h])"
  have "lnk (nxt s k) (prv s k) h (as1 @ (as2 @ B k)) h" using l(1) a(1) by simp
  then have "lnk (nxt s k) (prv s k) p (as2 @ B k) h" using lnk_suffix a(2) by metis
  then have p2: "lnk (nxt s k) (prv s k) p as2 ?z" by (rule lnk_prefix)
  have zin: "?z \<in> set (B k) \<or> ?z = h" by (cases "B k") auto
  have zd: "?z \<in> dom (heap s)" using zin l(2) 0(4) by auto
  have zk: "\<not> key_of s ?z \<le> key'" using zin l(4) 0(5) by auto
  have "search_level s key' k p = Some (Inr (last (p # as2)))"
    by (rule search_level_ok [OF 0(2) 0(3) p2 zd _ zk]) (use l(3) a(1) in auto)
  moreover have "last (p # as2) = last (h # A k)" using a by (cases as2) auto
  moreover have "\<not> 0 < k" using k0 by simp
  ultimately have "find_update s key' k p update = Some (Inr (update(k \<mapsto> last (h # A k))))"
    by (subst find_update.simps) (simp add: 0(2))
  moreover have "update(k \<mapsto> last (h # A k)) =
      (\<lambda>j. if 0 \<le> j \<and> j \<le> k then Some (last (h # A j)) else update j)"
    using k0 by (auto simp: fun_eq_iff)
  ultimately show ?case by simp
next
  case (Suc d)
  then have kp: "0 < k" "d = nat (k - 1)" by auto
  from Suc(9) obtain as1 as2 where a: "A k = as1 @ as2" "last (h # as1) = p" by blast
  from Suc(7) [rule_format, of k] kp have l: "lnk (nxt s k) (prv s k) h (A k @ B k) h" "set (B k) \<subseteq> dom (heap s)"
    "\<forall>a \<in> set (A k). key_of s a \<le> key'" "\<forall>b \<in> set (B k). \<not> key_of s b \<le> key'" by auto
  let ?z = "hd (B k @ [h])"
  have "lnk (nxt s k) (prv s k) h (as1 @ (as2 @ B k)) h" using l(1) a(1) by simp
  then have "lnk (nxt s k) (prv s k) p (as2 @ B k) h" using lnk_suffix a(2) by metis
  then have p2: "lnk (nxt s k) (prv s k) p as2 ?z" by (rule lnk_prefix)
  have zin: "?z \<in> set (B k) \<or> ?z = h" by (cases "B k") auto
  have zd: "?z \<in> dom (heap s)" using zin l(2) Suc(5) by auto
  have zk: "\<not> key_of s ?z \<le> key'" using zin l(4) Suc(6) by auto
  define r where "r = last (h # A k)"
  define F where "F = (\<lambda>j. if 0 \<le> j \<and> j \<le> k - 1 then Some (last (h # A j))
                     else (update(k \<mapsto> r)) j)"
  have lp: "last (p # as2) = r" using a by (cases as2) (auto simp: r_def)
  have "search_level s key' k p = Some (Inr (last (p # as2)))"
    by (rule search_level_ok [OF Suc(3) Suc(4) p2 zd _ zk]) (use l(3) a(1) in auto)
  then have sl: "search_level s key' k p = Some (Inr r)" using lp by simp
  have "find_update s key' (k - 1) r (update(k \<mapsto> r)) =
      Some (Inr (\<lambda>j. if 0 \<le> j \<and> j \<le> k - 1 then Some (last (h # A j))
                     else (update(k \<mapsto> r)) j))"
  proof (rule Suc(1))
    show "d = nat (k - 1)" by (rule kp(2))
    show "in_bounds (k - 1)" using Suc(3) kp by (simp add: in_bounds_def)
    show "NULL \<notin> dom (heap s)" by (rule Suc(4))
    show "h \<in> dom (heap s)" by (rule Suc(5))
    show "\<not> key_of s h \<le> key'" by (rule Suc(6))
    show "\<forall>j. 0 \<le> j \<and> j \<le> k - 1 \<longrightarrow>
           lnk (nxt s j) (prv s j) h (A j @ B j) h \<and> set (B j) \<subseteq> dom (heap s) \<and>
           (\<forall>a \<in> set (A j). key_of s a \<le> key') \<and> (\<forall>b \<in> set (B j). \<not> key_of s b \<le> key')"
    proof (intro allI impI)
      fix j assume "0 \<le> j \<and> j \<le> k - 1"
      then have "0 \<le> j \<and> j \<le> k" by simp
      then show "lnk (nxt s j) (prv s j) h (A j @ B j) h \<and> set (B j) \<subseteq> dom (heap s) \<and>
           (\<forall>a \<in> set (A j). key_of s a \<le> key') \<and> (\<forall>b \<in> set (B j). \<not> key_of s b \<le> key')"
        using Suc(7) by blast
    qed
    show "\<forall>j. 0 \<le> j \<and> j < k - 1 \<longrightarrow>
           (\<exists>as1 as2. A j = as1 @ as2 \<and> last (h # as1) = last (h # A (j + 1)))"
      using Suc(8) by simp
    have "0 \<le> k - 1 \<and> k - 1 < k" using kp by simp
    then have "\<exists>as1 as2. A (k - 1) = as1 @ as2 \<and> last (h # as1) = last (h # A (k - 1 + 1))"
      using Suc(8) by blast
    then show "\<exists>as1 as2. A (k - 1) = as1 @ as2 \<and> last (h # as1) = r"
      by (simp add: r_def)
  qed
  then have rec: "find_update s key' (k - 1) r (update(k \<mapsto> r)) = Some (Inr F)"
    by (simp add: F_def)
  have "find_update s key' k p update = Some (Inr F)"
    by (subst find_update.simps) (simp add: Suc(3) sl kp rec)
  moreover have "F = (\<lambda>j. if 0 \<le> j \<and> j \<le> k then Some (last (h # A j)) else update j)"
    using kp by (auto simp: fun_eq_iff F_def r_def)
  ultimately show ?case by simp
qed

section \<open>The invariant and its preservation\<close>

subsection \<open>List facts\<close>

lemma filter_level_split:
  fixes f :: "'a \<Rightarrow> int"
  shows "\<exists>as1 as2. filter (\<lambda>x. j \<le> f x) ys = as1 @ as2 \<and>
           last (h # as1) = last (h # filter (\<lambda>x. j + 1 \<le> f x) ys)"
proof (induction ys rule: rev_induct)
  case Nil
  then show ?case by simp
next
  case (snoc y ys)
  show ?case
  proof (cases "j + 1 \<le> f y")
    case True
    then have "filter (\<lambda>x. j \<le> f x) (ys @ [y]) = filter (\<lambda>x. j \<le> f x) (ys @ [y]) @ [] \<and>
        last (h # filter (\<lambda>x. j \<le> f x) (ys @ [y])) =
        last (h # filter (\<lambda>x. j + 1 \<le> f x) (ys @ [y]))"
      by simp
    then show ?thesis by blast
  next
    case False
    from snoc obtain as1 as2 where a: "filter (\<lambda>x. j \<le> f x) ys = as1 @ as2"
      "last (h # as1) = last (h # filter (\<lambda>x. j + 1 \<le> f x) ys)" by blast
    have "filter (\<lambda>x. j \<le> f x) (ys @ [y]) = as1 @ (as2 @ filter (\<lambda>x. j \<le> f x) [y]) \<and>
        last (h # as1) = last (h # filter (\<lambda>x. j + 1 \<le> f x) (ys @ [y]))"
      using a False by simp
    then show ?thesis by blast
  qed
qed

lemma sorted_dropWhile_gt:
  fixes f :: "'a \<Rightarrow> 'b :: linorder"
  shows "sorted (map f xs) \<Longrightarrow> b \<in> set (dropWhile (\<lambda>x. f x \<le> t) xs) \<Longrightarrow> \<not> f b \<le> t"
proof (induction xs)
  case Nil
  then show ?case by simp
next
  case (Cons x xs)
  show ?case
  proof (cases "f x \<le> t")
    case True
    then show ?thesis using Cons by simp
  next
    case False
    then have "b = x \<or> b \<in> set xs" using Cons.prems(2) by simp
    then have "f x \<le> f b" using Cons.prems(1) by auto
    then show ?thesis using False by simp
  qed
qed

lemma max_key_le: "(0xFFFFFFFFFFFFFFFF :: u64) \<le> k \<longleftrightarrow> k = 0xFFFFFFFFFFFFFFFF"
proof -
  have "(0xFFFFFFFFFFFFFFFF :: u64) = - 1" by simp
  then show ?thesis by (metis word_order.extremum_unique)
qed

lemma randomLevel_bounds: "0 \<le> randomLevel r \<and> randomLevel r \<le> 15"
proof (cases "r = 0")
  case True
  then show ?thesis by (simp add: randomLevel_def MaxLevel_def MaxNumberOfLevels_def)
next
  case False
  from trailing_zero_pairs_props [OF False]
  have "randomLevel_loop r 0 = 0 + int (trailing_zero_pairs r)"
    by (intro randomLevel_loop_pairs) auto
  then show ?thesis
    by (simp add: randomLevel_def MaxLevel_def MaxNumberOfLevels_def Let_def)
qed

subsection \<open>Consequences of the invariant\<close>

lemma InvD:
  assumes "Inv h s xs"
  shows "l_header s = h" and "NULL \<notin> dom (heap s)" and "dom (heap s) = insert h (set xs)"
    and "h \<notin> set xs" and "distinct xs"
    and "key_of s h = 0xFFFFFFFFFFFFFFFF" and "level_of s h = 0" and "value_of s h = NULL"
    and "0 \<le> l_level s" and "l_level s < MaxNumberOfLevels"
    and "\<forall>x \<in> set xs. 0 \<le> level_of s x \<and> level_of s x \<le> l_level s"
    and "l_level s = 0 \<or> (\<exists>x \<in> set xs. level_of s x = l_level s)"
    and "sorted (map (key_of s) xs)"
    and "\<forall>k. in_bounds k \<longrightarrow> lnk (nxt s k) (prv s k) h (lev_filter s k xs) h"
    and "\<forall>x \<in> set xs. \<forall>k. \<not> (0 \<le> k \<and> k \<le> level_of s x) \<longrightarrow>
           nxt s k x = None \<and> prv s k x = None"
  using assms unfolding Inv_def by blast+

lemma parts_append: "le_part s key' xs @ gt_part s key' xs = xs"
  by (simp add: le_part_def gt_part_def)

lemma lev_filter_append: "lev_filter s k (xs @ ys) = lev_filter s k xs @ lev_filter s k ys"
  by (simp add: lev_filter_def)

lemma lev_filter_subset: "set (lev_filter s k xs) \<subseteq> set xs"
  by (auto simp: lev_filter_def)

lemma le_part_subset: "set (le_part s key' xs) \<subseteq> set xs"
  by (auto simp: le_part_def dest: set_takeWhileD)

lemma gt_part_subset: "set (gt_part s key' xs) \<subseteq> set xs"
  by (auto simp: gt_part_def dest: set_dropWhileD)

lemma le_part_keys: "a \<in> set (le_part s key' xs) \<Longrightarrow> key_of s a \<le> key'"
  by (auto simp: le_part_def dest: set_takeWhileD)

lemma gt_part_keys:
  "sorted (map (key_of s) xs) \<Longrightarrow> b \<in> set (gt_part s key' xs) \<Longrightarrow> \<not> key_of s b \<le> key'"
  unfolding gt_part_def by (rule sorted_dropWhile_gt)

lemma Inv_chain:
  assumes "Inv h s xs" "in_bounds j"
  shows "lnk (nxt s j) (prv s j) h
           (lev_filter s j (le_part s key' xs) @ lev_filter s j (gt_part s key' xs)) h"
proof -
  have "lnk (nxt s j) (prv s j) h (lev_filter s j xs) h" using InvD(14) assms by blast
  then show ?thesis
    by (simp add: lev_filter_append [symmetric] parts_append)
qed

lemma pred_at_in: "pred_at s h key' xs j = h \<or> pred_at s h key' xs j \<in> set xs"
proof -
  have "pred_at s h key' xs j \<in> set (h # lev_filter s j (le_part s key' xs))"
    unfolding pred_at_def by (rule last_in_set) simp
  then show ?thesis using lev_filter_subset le_part_subset by fastforce
qed

lemma succ_at_in: "succ_at s h key' xs j = h \<or> succ_at s h key' xs j \<in> set xs"
proof -
  have "succ_at s h key' xs j \<in> set (lev_filter s j (gt_part s key' xs) @ [h])"
    unfolding succ_at_def by (rule hd_in_set) simp
  then show ?thesis using lev_filter_subset gt_part_subset by fastforce
qed

lemma pred_at_level:
  "pred_at s h key' xs j = h \<or> j \<le> level_of s (pred_at s h key' xs j)"
proof -
  have "pred_at s h key' xs j \<in> set (h # lev_filter s j (le_part s key' xs))"
    unfolding pred_at_def by (rule last_in_set) simp
  then show ?thesis by (auto simp: lev_filter_def)
qed

lemma succ_at_level:
  "succ_at s h key' xs j = h \<or> j \<le> level_of s (succ_at s h key' xs j)"
proof -
  have "succ_at s h key' xs j \<in> set (lev_filter s j (gt_part s key' xs) @ [h])"
    unfolding succ_at_def by (rule hd_in_set) simp
  then show ?thesis by (auto simp: lev_filter_def)
qed

lemma Inv_pred_succ:
  assumes "Inv h s xs" "in_bounds j"
  shows "nxt s j (pred_at s h key' xs j) = Some (succ_at s h key' xs j)"
    and "prv s j (succ_at s h key' xs j) = Some (pred_at s h key' xs j)"
  using lnk_mid [OF Inv_chain [OF assms, of key']] by (simp_all add: pred_at_def succ_at_def)

lemma Inv_find_update:
  assumes inv: "Inv h s xs" and key: "key' \<noteq> 0xFFFFFFFFFFFFFFFF"
  shows "find_update s key' (l_level s) h Map.empty =
           Some (Inr (\<lambda>j. if 0 \<le> j \<and> j \<le> l_level s then Some (pred_at s h key' xs j) else None))"
proof -
  let ?A = "\<lambda>j. lev_filter s j (le_part s key' xs)"
  let ?B = "\<lambda>j. lev_filter s j (gt_part s key' xs)"
  have srt: "sorted (map (key_of s) xs)" by (rule InvD(13) [OF inv])
  have dm: "dom (heap s) = insert h (set xs)" by (rule InvD(3) [OF inv])
  have "find_update s key' (l_level s) h Map.empty =
      Some (Inr (\<lambda>j. if 0 \<le> j \<and> j \<le> l_level s then Some (last (h # ?A j)) else Map.empty j))"
  proof (rule find_update_ok)
    show "in_bounds (l_level s)" using InvD(9,10) [OF inv] by (simp add: in_bounds_def)
    show "NULL \<notin> dom (heap s)" by (rule InvD(2) [OF inv])
    show "h \<in> dom (heap s)" using dm by simp
    show "\<not> key_of s h \<le> key'" using InvD(6) [OF inv] key by (simp add: max_key_le)
    show "\<forall>j. 0 \<le> j \<and> j \<le> l_level s \<longrightarrow>
        lnk (nxt s j) (prv s j) h (?A j @ ?B j) h \<and> set (?B j) \<subseteq> dom (heap s) \<and>
        (\<forall>a \<in> set (?A j). key_of s a \<le> key') \<and> (\<forall>b \<in> set (?B j). \<not> key_of s b \<le> key')"
    proof (intro allI impI conjI ballI)
      fix j assume j: "0 \<le> j \<and> j \<le> l_level s"
      then have "in_bounds j" using InvD(10) [OF inv] by (simp add: in_bounds_def)
      then show "lnk (nxt s j) (prv s j) h (?A j @ ?B j) h" by (rule Inv_chain [OF inv])
      show "set (?B j) \<subseteq> dom (heap s)"
        using lev_filter_subset [of s j] gt_part_subset [of s key' xs] dm by blast
    next
      fix j a assume "a \<in> set (?A j)"
      then have "a \<in> set (le_part s key' xs)" using lev_filter_subset by blast
      then show "key_of s a \<le> key'" by (rule le_part_keys)
    next
      fix j b assume "b \<in> set (?B j)"
      then have "b \<in> set (gt_part s key' xs)" using lev_filter_subset by blast
      then show "\<not> key_of s b \<le> key'" by (rule gt_part_keys [OF srt])
    qed
    show "\<forall>j. 0 \<le> j \<and> j < l_level s \<longrightarrow>
        (\<exists>as1 as2. ?A j = as1 @ as2 \<and> last (h # as1) = last (h # ?A (j + 1)))"
      unfolding lev_filter_def by (intro allI impI filter_level_split)
    show "\<exists>as1 as2. ?A (l_level s) = as1 @ as2 \<and> last (h # as1) = h"
      by (rule exI [of _ "[]"]) simp
  qed
  then show ?thesis by (simp only: pred_at_def)
qed

lemma new_level_bounds:
  assumes "0 \<le> l_level s" "l_level s < MaxNumberOfLevels"
  shows "0 \<le> new_level s r" "new_level s r \<le> l_level s + 1" "in_bounds (new_level s r)"
  using assms randomLevel_bounds [of r]
  by (auto simp: new_level_def in_bounds_def MaxNumberOfLevels_def)

lemma pred_at_above:
  assumes "Inv h s xs" "l_level s < j"
  shows "pred_at s h key' xs j = h"
proof -
  have "lev_filter s j xs = []"
    using InvD(11) [OF assms(1)] assms(2) by (auto simp: lev_filter_def filter_empty_conv)
  then have "lev_filter s j (le_part s key' xs) = []"
    using le_part_subset [of s key' xs] by (auto simp: lev_filter_def filter_empty_conv)
  then show ?thesis by (simp add: pred_at_def)
qed

lemma insert_result:
  assumes inv: "Inv h s xs" and key: "key' \<noteq> 0xFFFFFFFFFFFFFFFF"
    and fresh: "q \<notin> dom (heap s)" and qz: "q \<noteq> NULL"
  shows "\<exists>s'. skiplist_insert h s key' value' randseed q = Some (Inr (s', q)) \<and>
           ins_post h s xs key' value' randseed q s'"
proof -
  let ?K = "new_level s randseed"
  let ?P = "pred_at s h key' xs"
  let ?C = "succ_at s h key' xs"
  let ?upd = "\<lambda>j. if 0 \<le> j \<and> j \<le> l_level s then Some (?P j) else None"
  let ?grow = "randomLevel randseed > l_level s"
  let ?node = "\<lparr>level = ?K, key = key', value = value', next = Map.empty, prev = Map.empty\<rparr>"
  let ?s1 = "if ?grow then s\<lparr>l_level := l_level s + 1\<rparr> else s"
  let ?s2 = "?s1\<lparr>heap := (heap ?s1)(q \<mapsto> ?node)\<rparr>"
  let ?upd1 = "if ?grow then ?upd(?K \<mapsto> h) else ?upd"
  note lv = InvD(9,10) [OF inv]
  note nb = new_level_bounds [OF lv, of randseed]
  have dm: "dom (heap s) = insert h (set xs)" by (rule InvD(3) [OF inv])
  have hq: "h \<noteq> q" using dm fresh by auto
  have fu: "find_update s key' (l_level s) h Map.empty = Some (Inr ?upd)"
    by (rule Inv_find_update [OF inv key])
  have Kg: "?grow \<Longrightarrow> ?K = l_level s + 1" by (simp add: new_level_def)
  have Kn: "\<not> ?grow \<Longrightarrow> ?K = randomLevel randseed" by (simp add: new_level_def)
  have ins: "skiplist_insert h s key' value' randseed q =
      (case splice ?s2 q ?upd1 ?K of Inl e \<Rightarrow> Some (Inl e) | Inr s' \<Rightarrow> Some (Inr (s', q)))"
  proof (cases ?grow)
    case True
    then show ?thesis using nb(3) qz Kg
      by (simp add: skiplist_insert_def fu Let_def)
  next
    case False
    then show ?thesis using qz Kn
      by (simp add: skiplist_insert_def fu Let_def)
  qed
  have heap2: "heap ?s2 = (heap s)(q \<mapsto> ?node)" by simp
  have d2: "dom (heap ?s2) = insert q (dom (heap s))" by auto
  have nx2: "nxt ?s2 j = nxt s j" for j
    using fresh by (auto simp: nxt_def fun_eq_iff split: option.splits)
  have pv2: "prv ?s2 j = prv s j" for j
    using fresh by (auto simp: prv_def fun_eq_iff split: option.splits)
  have l2: "level_of ?s2 = (level_of s)(q := ?K)"
    by (auto simp: level_of_def fun_eq_iff)
  have k2: "key_of ?s2 = (key_of s)(q := key')"
    by (auto simp: key_of_def fun_eq_iff)
  have v2: "value_of ?s2 = (value_of s)(q := value')"
    by (auto simp: value_of_def fun_eq_iff)
  have ll2: "l_level ?s2 = max (l_level s) ?K"
    using nb randomLevel_bounds [of randseed] by (auto simp: new_level_def)
  have lh2: "l_header ?s2 = l_header s" by simp
  have upd1: "?upd1 j = Some (?P j)" if "0 \<le> j \<and> j \<le> ?K" for j
  proof (cases ?grow)
    case True
    show ?thesis
    proof (cases "j = ?K")
      case True
      then have "l_level s < j" using Kg \<open>?grow\<close> by simp
      then have "?P j = h" by (rule pred_at_above [OF inv])
      then show ?thesis using True \<open>?grow\<close> by simp
    next
      case False
      then show ?thesis using that Kg True by simp
    qed
  next
    case False
    then show ?thesis using that Kn by simp
  qed
  have "\<exists>s'. splice ?s2 q ?upd1 ?K = Inr s' \<and> same_fields ?s2 s' \<and>
           (\<forall>j. 0 \<le> j \<and> j \<le> ?K \<longrightarrow>
              nxt s' j = (nxt ?s2 j)(q \<mapsto> ?C j, ?P j \<mapsto> q) \<and>
              prv s' j = (prv ?s2 j)(q \<mapsto> ?P j, ?C j \<mapsto> q)) \<and>
           (\<forall>j. \<not> (0 \<le> j \<and> j \<le> ?K) \<longrightarrow> nxt s' j = nxt ?s2 j \<and> prv s' j = prv ?s2 j)"
  proof (rule splice_ok)
    show "in_bounds ?K" by (rule nb(3))
    show "q \<in> dom (heap ?s2)" using d2 by simp
    show "NULL \<notin> dom (heap ?s2)" using d2 qz InvD(2) [OF inv] by simp
    show "\<forall>j. 0 \<le> j \<and> j \<le> ?K \<longrightarrow>
        ?upd1 j = Some (?P j) \<and> nxt ?s2 j (?P j) = Some (?C j) \<and> ?P j \<noteq> q \<and>
        ?C j \<in> dom (heap ?s2)"
    proof (intro allI impI conjI)
      fix j assume j: "0 \<le> j \<and> j \<le> ?K"
      then have jb: "in_bounds j" using nb(3) by (simp add: in_bounds_def)
      show "?upd1 j = Some (?P j)" by (rule upd1 [OF j])
      show "nxt ?s2 j (?P j) = Some (?C j)"
        using Inv_pred_succ(1) [OF inv jb, of key'] nx2 [of j] by simp
      show "?P j \<noteq> q" using pred_at_in [of s h key' xs j] dm fresh by auto
      show "?C j \<in> dom (heap ?s2)" using succ_at_in [of s h key' xs j] dm d2 by auto
    qed
  qed
  then obtain s' where s': "splice ?s2 q ?upd1 ?K = Inr s'" "same_fields ?s2 s'"
    "\<forall>j. 0 \<le> j \<and> j \<le> ?K \<longrightarrow>
       nxt s' j = (nxt ?s2 j)(q \<mapsto> ?C j, ?P j \<mapsto> q) \<and>
       prv s' j = (prv ?s2 j)(q \<mapsto> ?P j, ?C j \<mapsto> q)"
    "\<forall>j. \<not> (0 \<le> j \<and> j \<le> ?K) \<longrightarrow> nxt s' j = nxt ?s2 j \<and> prv s' j = prv ?s2 j"
    by blast
  have r: "skiplist_insert h s key' value' randseed q = Some (Inr (s', q))"
    using ins s'(1) by simp
  have sf: "l_level s' = l_level ?s2" "l_header s' = l_header ?s2"
    "dom (heap s') = dom (heap ?s2)" "level_of s' = level_of ?s2" "key_of s' = key_of ?s2"
    "value_of s' = value_of ?s2"
    using s'(2) unfolding same_fields_def by blast+
  have "ins_post h s xs key' value' randseed q s'"
    unfolding ins_post_def
  proof (intro conjI)
    show "l_level s' = max (l_level s) ?K" using sf(1) ll2 by simp
    show "l_header s' = l_header s" using sf(2) lh2 by simp
    show "dom (heap s') = insert q (dom (heap s))" using sf(3) d2 by simp
    show "level_of s' = (level_of s)(q := ?K)" using sf(4) l2 by simp
    show "key_of s' = (key_of s)(q := key')" using sf(5) k2 by simp
    show "value_of s' = (value_of s)(q := value')" using sf(6) v2 by simp
    show "\<forall>j. 0 \<le> j \<and> j \<le> ?K \<longrightarrow>
        nxt s' j = (nxt s j)(q \<mapsto> ?C j, ?P j \<mapsto> q) \<and>
        prv s' j = (prv s j)(q \<mapsto> ?P j, ?C j \<mapsto> q)"
      using s'(3) nx2 pv2 by simp
    show "\<forall>j. \<not> (0 \<le> j \<and> j \<le> ?K) \<longrightarrow> nxt s' j = nxt s j \<and> prv s' j = prv s j"
      using s'(4) nx2 pv2 by simp
  qed
  then show ?thesis using r by blast
qed

lemma lev_filter_cong:
  "\<forall>x \<in> set xs. level_of s' x = level_of s x \<Longrightarrow> lev_filter s' k xs = lev_filter s k xs"
  unfolding lev_filter_def by (rule filter_cong) auto

lemma Inv_distinct_chain:
  assumes "Inv h s xs"
  shows "distinct (h # lev_filter s j (le_part s key' xs) @ lev_filter s j (gt_part s key' xs))"
proof -
  have "lev_filter s j (le_part s key' xs) @ lev_filter s j (gt_part s key' xs) = lev_filter s j xs"
    by (simp add: lev_filter_append [symmetric] parts_append)
  moreover have "distinct (lev_filter s j xs)"
    using InvD(5) [OF assms] by (simp add: lev_filter_def)
  moreover have "h \<notin> set (lev_filter s j xs)"
    using InvD(4) [OF assms] lev_filter_subset by blast
  ultimately show ?thesis by simp
qed

lemma insert_Inv:
  assumes inv: "Inv h s xs" and fresh: "q \<notin> dom (heap s)" and qz: "q \<noteq> NULL"
    and post: "ins_post h s xs key' value' randseed q s'"
  shows "Inv h s' (le_part s key' xs @ q # gt_part s key' xs)"
proof -
  let ?K = "new_level s randseed"
  let ?ys = "le_part s key' xs"
  let ?zs = "gt_part s key' xs"
  let ?P = "pred_at s h key' xs"
  let ?C = "succ_at s h key' xs"
  note lv = InvD(9,10) [OF inv]
  note nb = new_level_bounds [OF lv, of randseed]
  have dm: "dom (heap s) = insert h (set xs)" by (rule InvD(3) [OF inv])
  have hq: "h \<noteq> q" and qx: "q \<notin> set xs" using dm fresh by auto
  have xs: "?ys @ ?zs = xs" by (rule parts_append)
  have sxs: "set ?ys \<union> set ?zs = set xs" using xs by (metis set_append)
  have p: "l_level s' = max (l_level s) ?K" "l_header s' = l_header s"
    "dom (heap s') = insert q (dom (heap s))" "level_of s' = (level_of s)(q := ?K)"
    "key_of s' = (key_of s)(q := key')" "value_of s' = (value_of s)(q := value')"
    "\<forall>j. 0 \<le> j \<and> j \<le> ?K \<longrightarrow>
        nxt s' j = (nxt s j)(q \<mapsto> ?C j, ?P j \<mapsto> q) \<and>
        prv s' j = (prv s j)(q \<mapsto> ?P j, ?C j \<mapsto> q)"
    "\<forall>j. \<not> (0 \<le> j \<and> j \<le> ?K) \<longrightarrow> nxt s' j = nxt s j \<and> prv s' j = prv s j"
    using post unfolding ins_post_def by blast+
  have lev_old: "level_of s' x = level_of s x" if "x \<in> set xs" for x
    using that qx p(4) by auto
  have key_old: "key_of s' x = key_of s x" if "x \<in> set xs" for x
    using that qx p(5) by auto
  have lfy: "lev_filter s' j ?ys = lev_filter s j ?ys" for j
    by (rule lev_filter_cong) (use lev_old sxs in auto)
  have lfz: "lev_filter s' j ?zs = lev_filter s j ?zs" for j
    by (rule lev_filter_cong) (use lev_old sxs in auto)
  have lf_in: "lev_filter s' j (?ys @ q # ?zs) = lev_filter s j ?ys @ q # lev_filter s j ?zs"
    if "j \<le> ?K" for j
    using that lfy [of j] lfz [of j] p(4) by (simp add: lev_filter_def)
  have lf_out: "lev_filter s' j (?ys @ q # ?zs) = lev_filter s j ?ys @ lev_filter s j ?zs"
    if "\<not> j \<le> ?K" for j
    using that lfy [of j] lfz [of j] p(4) by (simp add: lev_filter_def)
  have Pq: "?P j \<noteq> q" for j using pred_at_in [of s h key' xs j] qx hq by auto
  have Cq: "?C j \<noteq> q" for j using succ_at_in [of s h key' xs j] qx hq by auto
  show ?thesis
    unfolding Inv_def
  proof (intro conjI)
    show "l_header s' = h" using p(2) InvD(1) [OF inv] by simp
    show "NULL \<notin> dom (heap s')" using p(3) qz InvD(2) [OF inv] by auto
    show "dom (heap s') = insert h (set (?ys @ q # ?zs))" using p(3) dm sxs by auto
    show "h \<notin> set (?ys @ q # ?zs)" using InvD(4) [OF inv] hq sxs by auto
    have "distinct (?ys @ ?zs)" using InvD(5) [OF inv] xs by simp
    then show "distinct (?ys @ q # ?zs)" using qx sxs by auto
    show "key_of s' h = 0xFFFFFFFFFFFFFFFF" using p(5) hq InvD(6) [OF inv] by simp
    show "level_of s' h = 0" using p(4) hq InvD(7) [OF inv] by simp
    show "value_of s' h = NULL" using p(6) hq InvD(8) [OF inv] by simp
    show "0 \<le> l_level s'" using p(1) lv by simp
    show "l_level s' < MaxNumberOfLevels" using p(1) lv nb(3) by (simp add: in_bounds_def)
    show "\<forall>x \<in> set (?ys @ q # ?zs). 0 \<le> level_of s' x \<and> level_of s' x \<le> l_level s'"
    proof
      fix x assume "x \<in> set (?ys @ q # ?zs)"
      then have "x = q \<or> x \<in> set xs" using sxs by auto
      then show "0 \<le> level_of s' x \<and> level_of s' x \<le> l_level s'"
      proof
        assume "x = q"
        then show ?thesis using p(1,4) nb by simp
      next
        assume x: "x \<in> set xs"
        then show ?thesis using lev_old [OF x] InvD(11) [OF inv] p(1) by auto
      qed
    qed
    show "l_level s' = 0 \<or> (\<exists>x \<in> set (?ys @ q # ?zs). level_of s' x = l_level s')"
    proof (cases "l_level s < ?K")
      case True
      then have "level_of s' q = l_level s'" using p(1,4) by simp
      then show ?thesis by auto
    next
      case False
      then have e: "l_level s' = l_level s" using p(1) by simp
      from InvD(12) [OF inv] show ?thesis
      proof
        assume "l_level s = 0"
        then show ?thesis using e by simp
      next
        assume "\<exists>x \<in> set xs. level_of s x = l_level s"
        then obtain x where x: "x \<in> set xs" "level_of s x = l_level s" by blast
        then have "x \<in> set (?ys @ q # ?zs)" "level_of s' x = l_level s'"
          using sxs lev_old [OF x(1)] e by auto
        then show ?thesis by blast
      qed
    qed
    show "sorted (map (key_of s') (?ys @ q # ?zs))"
    proof -
      have m: "map (key_of s') (?ys @ q # ?zs) =
          map (key_of s) ?ys @ key' # map (key_of s) ?zs"
        using qx sxs p(5) by auto
      have srt: "sorted (map (key_of s) ?ys @ map (key_of s) ?zs)"
        using InvD(13) [OF inv] xs by (metis map_append)
      have "\<forall>a \<in> set ?ys. key_of s a \<le> key'" using le_part_keys by blast
      moreover have "\<forall>b \<in> set ?zs. key' \<le> key_of s b"
        using gt_part_keys [OF InvD(13) [OF inv]] by fastforce
      ultimately show ?thesis using srt unfolding m by (auto simp: sorted_append)
    qed
    show "\<forall>k. in_bounds k \<longrightarrow> lnk (nxt s' k) (prv s' k) h (lev_filter s' k (?ys @ q # ?zs)) h"
    proof (intro allI impI)
      fix k assume kb: "in_bounds k"
      let ?A = "lev_filter s k ?ys" and ?B = "lev_filter s k ?zs"
      have old: "lnk (nxt s k) (prv s k) h (?A @ ?B) h" by (rule Inv_chain [OF inv kb])
      have dist: "distinct (h # ?A @ ?B)" by (rule Inv_distinct_chain [OF inv])
      have sub: "set (?A @ ?B) \<subseteq> set xs"
        using lev_filter_subset [of s k] sxs by auto
      show "lnk (nxt s' k) (prv s' k) h (lev_filter s' k (?ys @ q # ?zs)) h"
      proof (cases "k \<le> ?K")
        case True
        then have k: "0 \<le> k \<and> k \<le> ?K" using kb by (simp add: in_bounds_def)
        have nx: "nxt s' k = (nxt s k)(q \<mapsto> ?C k, ?P k \<mapsto> q)"
          and pv: "prv s' k = (prv s k)(q \<mapsto> ?P k, ?C k \<mapsto> q)"
          using p(7) k by blast+
        have PC: "?P k = last (h # ?A)" "?C k = hd (?B @ [h])"
          by (simp_all only: pred_at_def succ_at_def)
        have "lnk (nxt s' k) (prv s' k) h (?A @ q # ?B) h"
        proof (rule lnk_splice [OF old dist])
          show "h \<notin> set (?A @ ?B)" using dist by simp
          show "q \<notin> set (h # ?A @ ?B)" using sub qx hq by auto
          show "q \<noteq> h" using hq by simp
          show "nxt s' k q = Some (hd (?B @ [h]))" using nx Pq [of k] PC by simp
          show "nxt s' k (last (h # ?A)) = Some q" using nx PC by simp
          show "prv s' k q = Some (last (h # ?A))" using pv Cq [of k] PC by simp
          show "prv s' k (hd (?B @ [h])) = Some q" using pv PC by simp
          show "\<forall>x. x \<noteq> q \<and> x \<noteq> last (h # ?A) \<longrightarrow> nxt s' k x = nxt s k x"
            using nx PC by simp
          show "\<forall>x. x \<noteq> q \<and> x \<noteq> hd (?B @ [h]) \<longrightarrow> prv s' k x = prv s k x"
            using pv PC by simp
        qed
        then show ?thesis using lf_in [OF True] by simp
      next
        case False
        then have "nxt s' k = nxt s k" "prv s' k = prv s k" using p(8) by auto
        then show ?thesis using old lf_out [OF False] by simp
      qed
    qed
    show "\<forall>x \<in> set (?ys @ q # ?zs). \<forall>k. \<not> (0 \<le> k \<and> k \<le> level_of s' x) \<longrightarrow>
        nxt s' k x = None \<and> prv s' k x = None"
    proof (intro ballI allI impI)
      fix x k assume x: "x \<in> set (?ys @ q # ?zs)" and k: "\<not> (0 \<le> k \<and> k \<le> level_of s' x)"
      have qn: "nxt s k q = None" "prv s k q = None"
        using fresh by (auto simp: nxt_def prv_def split: option.splits)
      from x have "x = q \<or> x \<in> set xs" using sxs by auto
      then show "nxt s' k x = None \<and> prv s' k x = None"
      proof
        assume xq: "x = q"
        then have "\<not> (0 \<le> k \<and> k \<le> ?K)" using k p(4) by simp
        then show ?thesis using p(8) qn xq by simp
      next
        assume xx: "x \<in> set xs"
        then have kx: "\<not> (0 \<le> k \<and> k \<le> level_of s x)" using k lev_old by simp
        then have old: "nxt s k x = None \<and> prv s k x = None" using InvD(15) [OF inv] xx by blast
        have xq: "x \<noteq> q" using xx qx by auto
        have xh: "x \<noteq> h" using xx InvD(4) [OF inv] by auto
        show ?thesis
        proof (cases "0 \<le> k \<and> k \<le> ?K")
          case True
          have "x \<noteq> ?P k" using pred_at_level [of s h key' xs k] kx xh True by auto
          moreover have "x \<noteq> ?C k" using succ_at_level [of s h key' xs k] kx xh True by auto
          ultimately show ?thesis using p(7) True old xq by simp
        next
          case False
          then show ?thesis using p(8) old by simp
        qed
      qed
    qed
  qed
qed

lemma split_at:
  assumes "distinct xs" "n \<in> set xs"
  obtains us vs where "xs = us @ n # vs" "before n xs = us" "after n xs = vs"
    "n \<notin> set us" "n \<notin> set vs" "remove1 n xs = us @ vs"
proof -
  from assms(2) obtain us vs where x: "xs = us @ n # vs" by (auto dest: split_list)
  then have nn: "n \<notin> set us" "n \<notin> set vs" using assms(1) by auto
  have "takeWhile (\<lambda>x. x \<noteq> n) (us @ n # vs) = us @ takeWhile (\<lambda>x. x \<noteq> n) (n # vs)"
    by (rule takeWhile_append2) (use nn in auto)
  then have b: "before n xs = us" unfolding x by (simp add: before_def)
  have "dropWhile (\<lambda>x. x \<noteq> n) (us @ n # vs) = dropWhile (\<lambda>x. x \<noteq> n) (n # vs)"
    by (rule dropWhile_append2) (use nn in auto)
  then have a: "after n xs = vs" unfolding x by (simp add: after_def)
  have "remove1 n xs = us @ vs" using x nn by (simp add: remove1_append)
  then show ?thesis using that x a b nn by blast
qed

lemma Inv_del_chain:
  assumes inv: "Inv h s xs" and n: "n \<in> set xs" and jb: "in_bounds j" and jl: "j \<le> level_of s n"
  shows "lnk (nxt s j) (prv s j) h
           (lev_filter s j (before n xs) @ n # lev_filter s j (after n xs)) h"
proof -
  from split_at [OF InvD(5) [OF inv] n] obtain us vs where
    sp: "xs = us @ n # vs" "before n xs = us" "after n xs = vs" by blast
  have "lnk (nxt s j) (prv s j) h (lev_filter s j xs) h" using InvD(14) [OF inv] jb by blast
  moreover have "lev_filter s j xs = lev_filter s j us @ n # lev_filter s j vs"
    using jl unfolding sp(1) by (simp add: lev_filter_def)
  ultimately show ?thesis unfolding sp(2,3) by simp
qed

lemma Inv_del_ptrs:
  assumes inv: "Inv h s xs" and n: "n \<in> set xs" and jb: "in_bounds j" and jl: "j \<le> level_of s n"
  shows "prv s j n = Some (del_pred s h xs n j)" and "nxt s j n = Some (del_succ s h xs n j)"
proof -
  let ?A = "lev_filter s j (before n xs)" and ?B = "lev_filter s j (after n xs)"
  from Inv_del_chain [OF assms]
  have 1: "lnk (nxt s j) (prv s j) h ?A n" and 2: "lnk (nxt s j) (prv s j) n ?B h"
    by (simp_all add: lnk_split)
  from lnk_mid [of "nxt s j" "prv s j" h ?A "[]" n] 1
  show "prv s j n = Some (del_pred s h xs n j)" by (simp add: del_pred_def)
  from lnk_mid [of "nxt s j" "prv s j" n "[]" ?B h] 2
  show "nxt s j n = Some (del_succ s h xs n j)" by (simp add: del_succ_def)
qed

lemma del_pred_in: "del_pred s h xs n j \<in> insert h (set (before n xs))"
proof -
  have "del_pred s h xs n j \<in> set (h # lev_filter s j (before n xs))"
    unfolding del_pred_def by (rule last_in_set) simp
  then show ?thesis using lev_filter_subset by fastforce
qed

lemma del_succ_in: "del_succ s h xs n j \<in> insert h (set (after n xs))"
proof -
  have "del_succ s h xs n j \<in> set (lev_filter s j (after n xs) @ [h])"
    unfolding del_succ_def by (rule hd_in_set) simp
  then show ?thesis using lev_filter_subset by fastforce
qed

lemma del_chain:
  assumes inv: "Inv h s xs" and n: "n \<in> set xs" and dh: "del_heap h s xs n s'"
    and kb: "in_bounds k"
  shows "lnk (nxt s' k) (prv s' k) h (lev_filter s k (remove1 n xs)) h"
proof -
  from split_at [OF InvD(5) [OF inv] n] obtain us vs where
    sp: "xs = us @ n # vs" "before n xs = us" "after n xs = vs"
      "n \<notin> set us" "n \<notin> set vs" "remove1 n xs = us @ vs" by blast
  let ?A = "lev_filter s k us" and ?B = "lev_filter s k vs"
  let ?P = "del_pred s h xs n k" and ?C = "del_succ s h xs n k"
  have PC: "?P = last (h # ?A)" "?C = hd (?B @ [h])"
    by (simp_all only: del_pred_def del_succ_def sp(2,3))
  have nh: "n \<noteq> h" using n InvD(4) [OF inv] by auto
  have hx: "h \<notin> set us" "h \<notin> set vs" using InvD(4) [OF inv] unfolding sp(1) by auto
  have dx: "distinct (us @ n # vs)" using InvD(5) [OF inv] unfolding sp(1) .
  have rm: "lev_filter s k (remove1 n xs) = ?A @ ?B"
    unfolding sp(6) by (simp add: lev_filter_append)
  have d: "nxt s' k = (if 0 \<le> k \<and> k \<le> level_of s n
                        then ((nxt s k)(?P \<mapsto> ?C))(n := None) else (nxt s k)(n := None))"
    "prv s' k = (if 0 \<le> k \<and> k \<le> level_of s n
                        then ((prv s k)(?C \<mapsto> ?P))(n := None) else (prv s k)(n := None))"
    using dh unfolding del_heap_def by auto
  have Pn: "?P \<noteq> n" using del_pred_in [of s h xs n k] sp(4) nh unfolding sp(2) by auto
  have Cn: "?C \<noteq> n" using del_succ_in [of s h xs n k] sp(5) nh unfolding sp(3) by auto
  have subA: "set ?A \<subseteq> set us" and subB: "set ?B \<subseteq> set vs"
    by (rule lev_filter_subset)+
  show ?thesis
  proof (cases "k \<le> level_of s n")
    case True
    then have k: "0 \<le> k \<and> k \<le> level_of s n" using kb by (simp add: in_bounds_def)
    have old: "lnk (nxt s k) (prv s k) h (?A @ n # ?B) h"
      using Inv_del_chain [OF inv n kb True] unfolding sp(2,3) .
    have dist: "distinct (h # ?A @ n # ?B)"
      using dx hx nh subA subB by (auto simp: lev_filter_def)
    have "lnk (nxt s' k) (prv s' k) h (?A @ ?B) h"
    proof (rule lnk_unlink [OF old dist])
      show "h \<notin> set (?A @ n # ?B)" using dist by simp
      show "nxt s' k (last (h # ?A)) = Some (hd (?B @ [h]))"
        using d(1) k Pn unfolding PC by simp
      show "prv s' k (hd (?B @ [h])) = Some (last (h # ?A))"
        using d(2) k Cn unfolding PC by simp
      show "\<forall>x. x \<noteq> n \<and> x \<noteq> last (h # ?A) \<longrightarrow> nxt s' k x = nxt s k x"
        using d(1) k unfolding PC by simp
      show "\<forall>x. x \<noteq> n \<and> x \<noteq> hd (?B @ [h]) \<longrightarrow> prv s' k x = prv s k x"
        using d(2) k unfolding PC by simp
    qed
    then show ?thesis using rm by simp
  next
    case False
    then have e: "nxt s' k = (nxt s k)(n := None)" "prv s' k = (prv s k)(n := None)"
      using d by auto
    have "lev_filter s k xs = ?A @ ?B"
      using False unfolding sp(1) by (simp add: lev_filter_def)
    then have old: "lnk (nxt s k) (prv s k) h (?A @ ?B) h" using InvD(14) [OF inv] kb by metis
    have nin: "n \<notin> set (?A @ ?B)" using sp(4,5) subA subB by auto
    have "lnk (nxt s' k) (prv s' k) h (?A @ ?B) h = lnk (nxt s k) (prv s k) h (?A @ ?B) h"
      by (rule lnk_frame) (use e nin nh in auto)
    then show ?thesis using old rm by simp
  qed
qed

lemma del_pred_level: "del_pred s h xs n j = h \<or> j \<le> level_of s (del_pred s h xs n j)"
proof -
  have "del_pred s h xs n j \<in> set (h # lev_filter s j (before n xs))"
    unfolding del_pred_def by (rule last_in_set) simp
  then show ?thesis by (auto simp: lev_filter_def)
qed

lemma del_succ_level: "del_succ s h xs n j = h \<or> j \<le> level_of s (del_succ s h xs n j)"
proof -
  have "del_succ s h xs n j \<in> set (lev_filter s j (after n xs) @ [h])"
    unfolding del_succ_def by (rule hd_in_set) simp
  then show ?thesis by (auto simp: lev_filter_def)
qed

lemma l_level_upd_proj:
  "nxt (s\<lparr>l_level := r\<rparr>) = nxt s" "prv (s\<lparr>l_level := r\<rparr>) = prv s"
  "level_of (s\<lparr>l_level := r\<rparr>) = level_of s" "key_of (s\<lparr>l_level := r\<rparr>) = key_of s"
  "value_of (s\<lparr>l_level := r\<rparr>) = value_of s"
  by (simp_all add: fun_eq_iff nxt_def prv_def level_of_def key_of_def value_of_def)

lemma del_heap_level_upd:
  "del_heap h s xs n s2 \<Longrightarrow> del_heap h s xs n (s2\<lparr>l_level := r\<rparr>)"
  by (simp add: del_heap_def l_level_upd_proj)

lemma delnode_shrink:
  "get_node s n = Inr node \<Longrightarrow> level node = m \<Longrightarrow> unlink s n 0 m = Inr s1 \<Longrightarrow>
   m = l_level s1 \<Longrightarrow> shrink (s1\<lparr>heap := (heap s1)(n := None)\<rparr>) h m = Inr r \<Longrightarrow>
   skiplist_delnode h s n = Inr (s1\<lparr>heap := (heap s1)(n := None), l_level := r\<rparr>)"
  by (simp add: skiplist_delnode_def Let_def)

lemma delnode_keep:
  "get_node s n = Inr node \<Longrightarrow> level node = m \<Longrightarrow> unlink s n 0 m = Inr s1 \<Longrightarrow>
   m \<noteq> l_level s1 \<Longrightarrow>
   skiplist_delnode h s n = Inr (s1\<lparr>heap := (heap s1)(n := None)\<rparr>)"
  by (simp add: skiplist_delnode_def Let_def)

lemma delete_result:
  assumes inv: "Inv h s xs" and n: "n \<in> set xs"
  shows "\<exists>s'. skiplist_delnode h s n = Inr s' \<and> del_post h s xs n s'"
proof -
  let ?m = "level_of s n"
  let ?P = "del_pred s h xs n" and ?C = "del_succ s h xs n"
  let ?L = "\<lambda>j. lev_filter s j (remove1 n xs)"
  from split_at [OF InvD(5) [OF inv] n] obtain us vs where
    sp: "xs = us @ n # vs" "before n xs = us" "after n xs = vs"
      "n \<notin> set us" "n \<notin> set vs" "remove1 n xs = us @ vs" by blast
  have dm: "dom (heap s) = insert h (set xs)" by (rule InvD(3) [OF inv])
  have z: "NULL \<notin> dom (heap s)" by (rule InvD(2) [OF inv])
  have nh: "n \<noteq> h" using n InvD(4) [OF inv] by auto
  have nd: "n \<in> dom (heap s)" using dm n by simp
  then obtain node where node: "heap s n = Some node" by auto
  have nz: "n \<noteq> NULL" using nd z by auto
  have gn: "get_node s n = Inr node" using nz node by (rule get_node_ok)
  have lm: "level node = ?m" using node by (simp add: level_of_def)
  have mb: "0 \<le> ?m" "?m \<le> l_level s" "?m < MaxNumberOfLevels"
    using InvD(10,11) [OF inv] n by auto
  have rms: "set (remove1 n xs) = set xs - {n}"
    using InvD(5) [OF inv] by (rule set_remove1_eq)
  have "\<exists>s1. unlink s n 0 ?m = Inr s1 \<and> same_fields s s1 \<and>
           (\<forall>j. 0 \<le> j \<and> j \<le> ?m \<longrightarrow>
              nxt s1 j = (nxt s j)(?P j \<mapsto> ?C j) \<and> prv s1 j = (prv s j)(?C j \<mapsto> ?P j)) \<and>
           (\<forall>j. \<not> (0 \<le> j \<and> j \<le> ?m) \<longrightarrow> nxt s1 j = nxt s j \<and> prv s1 j = prv s j)"
  proof (rule unlink_ok)
    show "(0::int) \<le> 0" by simp
    show "?m < MaxNumberOfLevels" by (rule mb(3))
    show "n \<in> dom (heap s)" by (rule nd)
    show "NULL \<notin> dom (heap s)" by (rule z)
    show "\<forall>j. 0 \<le> j \<and> j \<le> ?m \<longrightarrow>
        prv s j n = Some (?P j) \<and> nxt s j n = Some (?C j) \<and> ?P j \<noteq> n \<and>
        ?P j \<in> dom (heap s) \<and> ?C j \<in> dom (heap s)"
    proof (intro allI impI conjI)
      fix j assume j: "0 \<le> j \<and> j \<le> ?m"
      then have jb: "in_bounds j" and jl: "j \<le> ?m" using mb by (simp_all add: in_bounds_def)
      show "prv s j n = Some (?P j)" by (rule Inv_del_ptrs(1) [OF inv n jb jl])
      show "nxt s j n = Some (?C j)" by (rule Inv_del_ptrs(2) [OF inv n jb jl])
      show "?P j \<noteq> n" using del_pred_in [of s h xs n j] sp(4) nh unfolding sp(2) by auto
      have "set us \<subseteq> set xs" "set vs \<subseteq> set xs" unfolding sp(1) by auto
      then show "?P j \<in> dom (heap s)" "?C j \<in> dom (heap s)"
        using del_pred_in [of s h xs n j] del_succ_in [of s h xs n j] dm
        unfolding sp(2,3) by auto
    qed
  qed
  then obtain s1 where s1: "unlink s n 0 ?m = Inr s1" "same_fields s s1"
    "\<forall>j. 0 \<le> j \<and> j \<le> ?m \<longrightarrow>
       nxt s1 j = (nxt s j)(?P j \<mapsto> ?C j) \<and> prv s1 j = (prv s j)(?C j \<mapsto> ?P j)"
    "\<forall>j. \<not> (0 \<le> j \<and> j \<le> ?m) \<longrightarrow> nxt s1 j = nxt s j \<and> prv s1 j = prv s j"
    by blast
  let ?s2 = "s1\<lparr>heap := (heap s1)(n := None)\<rparr>"
  have sf: "l_level s1 = l_level s" "l_header s1 = l_header s"
    "dom (heap s1) = dom (heap s)" "level_of s1 = level_of s" "key_of s1 = key_of s"
    "value_of s1 = value_of s"
    using s1(2) unfolding same_fields_def by blast+
  have nx2: "nxt ?s2 j = (nxt s1 j)(n := None)" for j by (auto simp: nxt_def fun_eq_iff)
  have pv2: "prv ?s2 j = (prv s1 j)(n := None)" for j by (auto simp: prv_def fun_eq_iff)
  have dh: "del_heap h s xs n ?s2"
    unfolding del_heap_def
  proof (intro conjI)
    show "l_header ?s2 = l_header s" using sf(2) by simp
    show "dom (heap ?s2) = dom (heap s) - {n}" using sf(3) by auto
    show "level_of ?s2 = (level_of s)(n := 0)"
      using sf(4) by (auto simp: level_of_def fun_eq_iff)
    show "key_of ?s2 = (key_of s)(n := 0)"
      using sf(5) by (auto simp: key_of_def fun_eq_iff)
    show "value_of ?s2 = (value_of s)(n := NULL)"
      using sf(6) by (auto simp: value_of_def fun_eq_iff)
    show "\<forall>j. 0 \<le> j \<and> j \<le> ?m \<longrightarrow>
        nxt ?s2 j = ((nxt s j)(?P j \<mapsto> ?C j))(n := None) \<and>
        prv ?s2 j = ((prv s j)(?C j \<mapsto> ?P j))(n := None)"
      using s1(3) nx2 pv2 by simp
    show "\<forall>j. \<not> (0 \<le> j \<and> j \<le> ?m) \<longrightarrow>
        nxt ?s2 j = (nxt s j)(n := None) \<and> prv ?s2 j = (prv s j)(n := None)"
      using s1(4) nx2 pv2 by simp
  qed
  have ll2: "l_level ?s2 = l_level s" using sf(1) by simp
  have ch: "lnk (nxt ?s2 j) (prv ?s2 j) h (?L j) h" if "in_bounds j" for j
    by (rule del_chain [OF inv n dh that])
  have hL: "h \<notin> set (?L j)" for j
    using lev_filter_subset [of s j "remove1 n xs"] rms InvD(4) [OF inv] by auto
  show ?thesis
  proof (cases "?m = l_level s")
    case False
    have del: "skiplist_delnode h s n = Inr ?s2"
      by (rule delnode_keep [OF gn lm s1(1)]) (use False sf(1) in simp)
    have "del_post h s xs n ?s2"
      unfolding del_post_def
    proof (intro conjI)
      show "del_heap h s xs n ?s2" by (rule dh)
      show "0 \<le> l_level ?s2" using ll2 InvD(9) [OF inv] by simp
      show "l_level ?s2 \<le> l_level s" using ll2 by simp
      show "\<forall>x \<in> set (remove1 n xs). level_of s x \<le> l_level ?s2"
        using InvD(11) [OF inv] rms ll2 by auto
      show "l_level ?s2 = 0 \<or> (\<exists>x \<in> set (remove1 n xs). level_of s x = l_level ?s2)"
      proof (cases "l_level s = 0")
        case True
        then show ?thesis using ll2 by simp
      next
        case nz: False
        then obtain x where x: "x \<in> set xs" "level_of s x = l_level s"
          using InvD(12) [OF inv] by blast
        then have "x \<noteq> n" using False by auto
        then have "x \<in> set (remove1 n xs)" using x(1) rms by simp
        then show ?thesis using x(2) ll2 by auto
      qed
    qed
    then show ?thesis using del by blast
  next
    case True
    have mb': "in_bounds ?m" using mb by (simp add: in_bounds_def)
    have "\<exists>r. shrink ?s2 h ?m = Inr r \<and> 0 \<le> r \<and> r \<le> ?m \<and>
           (\<forall>j. r < j \<and> j \<le> ?m \<longrightarrow> nxt ?s2 j h = Some h \<and> prv ?s2 j h = Some h) \<and>
           (r = 0 \<or> \<not> (nxt ?s2 r h = Some h \<and> prv ?s2 r h = Some h))"
    proof (rule shrink_ok)
      show "l_header ?s2 = h" using sf(2) InvD(1) [OF inv] by simp
      show "h \<in> dom (heap ?s2)" using sf(3) dm nh by auto
      show "NULL \<notin> dom (heap ?s2)" using sf(3) z by auto
      show "in_bounds ?m" by (rule mb')
      show "\<forall>j. 0 \<le> j \<and> j \<le> ?m \<longrightarrow> nxt ?s2 j h \<noteq> None \<and> prv ?s2 j h \<noteq> None"
      proof (intro allI impI)
        fix j assume "0 \<le> j \<and> j \<le> ?m"
        then have "in_bounds j" using mb by (simp add: in_bounds_def)
        from ch [OF this] lnk_mid [of "nxt ?s2 j" "prv ?s2 j" h "[]" "?L j" h]
          lnk_mid [of "nxt ?s2 j" "prv ?s2 j" h "?L j" "[]" h]
        show "nxt ?s2 j h \<noteq> None \<and> prv ?s2 j h \<noteq> None" by simp
      qed
    qed
    then obtain r where r: "shrink ?s2 h ?m = Inr r" "0 \<le> r" "r \<le> ?m"
      "\<forall>j. r < j \<and> j \<le> ?m \<longrightarrow> nxt ?s2 j h = Some h \<and> prv ?s2 j h = Some h"
      "r = 0 \<or> \<not> (nxt ?s2 r h = Some h \<and> prv ?s2 r h = Some h)"
      by blast
    have del: "skiplist_delnode h s n = Inr (?s2\<lparr>l_level := r\<rparr>)"
      by (rule delnode_shrink [OF gn lm s1(1) _ r(1)]) (use True sf(1) in simp)
    have emp: "?L j = []" if "r < j" "j \<le> ?m" for j
    proof -
      have jb: "in_bounds j" using that r(2) mb by (simp add: in_bounds_def)
      have "nxt ?s2 j h = Some h" using r(4) that by blast
      then show ?thesis using lnk_empty_iff(1) [OF ch [OF jb] hL] by simp
    qed
    have "del_post h s xs n (?s2\<lparr>l_level := r\<rparr>)"
      unfolding del_post_def
    proof (intro conjI)
      show "del_heap h s xs n (?s2\<lparr>l_level := r\<rparr>)" by (rule del_heap_level_upd [OF dh])
      show "0 \<le> l_level (?s2\<lparr>l_level := r\<rparr>)" using r(2) by simp
      show "l_level (?s2\<lparr>l_level := r\<rparr>) \<le> l_level s" using r(3) mb(2) by simp
      show "\<forall>x \<in> set (remove1 n xs). level_of s x \<le> l_level (?s2\<lparr>l_level := r\<rparr>)"
      proof
        fix x assume x: "x \<in> set (remove1 n xs)"
        then have xx: "x \<in> set xs" using rms by simp
        show "level_of s x \<le> l_level (?s2\<lparr>l_level := r\<rparr>)"
        proof (rule ccontr)
          assume "\<not> level_of s x \<le> l_level (?s2\<lparr>l_level := r\<rparr>)"
          then have "r < level_of s x" by simp
          moreover have "level_of s x \<le> ?m" using InvD(11) [OF inv] xx True by auto
          ultimately have "?L (level_of s x) = []" by (rule emp)
          moreover have "x \<in> set (?L (level_of s x))" using x by (simp add: lev_filter_def)
          ultimately show False by simp
        qed
      qed
      show "l_level (?s2\<lparr>l_level := r\<rparr>) = 0 \<or>
          (\<exists>x \<in> set (remove1 n xs). level_of s x = l_level (?s2\<lparr>l_level := r\<rparr>))"
      proof (cases "r = 0")
        case True
        then show ?thesis by simp
      next
        case False
        then have rb: "in_bounds r" using r(2,3) mb by (simp add: in_bounds_def)
        have "\<not> (nxt ?s2 r h = Some h \<and> prv ?s2 r h = Some h)" using r(5) False by simp
        then have "?L r \<noteq> []"
          using lnk_empty_iff [OF ch [OF rb] hL] by blast
        then obtain x where x: "x \<in> set (?L r)" by (cases "?L r") auto
        then have x1: "x \<in> set (remove1 n xs)" "r \<le> level_of s x"
          by (simp_all add: lev_filter_def)
        have "level_of s x \<le> r"
        proof (rule ccontr)
          assume "\<not> level_of s x \<le> r"
          then have "r < level_of s x" by simp
          moreover have "level_of s x \<le> ?m"
            using InvD(11) [OF inv] x1(1) rms True by auto
          ultimately have "?L (level_of s x) = []" by (rule emp)
          moreover have "x \<in> set (?L (level_of s x))" using x1(1) by (simp add: lev_filter_def)
          ultimately show False by simp
        qed
        then have "level_of s x = r" using x1(2) by simp
        then show ?thesis using x1(1) by auto
      qed
    qed
    then show ?thesis using del by blast
  qed
qed

lemma sorted_map_remove1:
  fixes f :: "'a \<Rightarrow> 'b :: linorder"
  shows "sorted (map f xs) \<Longrightarrow> sorted (map f (remove1 n xs))"
  by (induction xs) (auto simp: notin_set_remove1)

lemma delete_Inv:
  assumes inv: "Inv h s xs" and n: "n \<in> set xs" and post: "del_post h s xs n s'"
  shows "Inv h s' (remove1 n xs)"
proof -
  let ?m = "level_of s n"
  let ?P = "del_pred s h xs n" and ?C = "del_succ s h xs n"
  have dh: "del_heap h s xs n s'" using post by (simp add: del_post_def)
  have p: "l_header s' = l_header s" "dom (heap s') = dom (heap s) - {n}"
    "level_of s' = (level_of s)(n := 0)" "key_of s' = (key_of s)(n := 0)"
    "value_of s' = (value_of s)(n := NULL)"
    "\<forall>j. 0 \<le> j \<and> j \<le> ?m \<longrightarrow>
        nxt s' j = ((nxt s j)(?P j \<mapsto> ?C j))(n := None) \<and>
        prv s' j = ((prv s j)(?C j \<mapsto> ?P j))(n := None)"
    "\<forall>j. \<not> (0 \<le> j \<and> j \<le> ?m) \<longrightarrow>
        nxt s' j = (nxt s j)(n := None) \<and> prv s' j = (prv s j)(n := None)"
    using dh unfolding del_heap_def by blast+
  have lv: "0 \<le> l_level s'" "l_level s' \<le> l_level s"
    "\<forall>x \<in> set (remove1 n xs). level_of s x \<le> l_level s'"
    "l_level s' = 0 \<or> (\<exists>x \<in> set (remove1 n xs). level_of s x = l_level s')"
    using post unfolding del_post_def by blast+
  have dm: "dom (heap s) = insert h (set xs)" by (rule InvD(3) [OF inv])
  have nh: "n \<noteq> h" using n InvD(4) [OF inv] by auto
  have rms: "set (remove1 n xs) = set xs - {n}"
    using InvD(5) [OF inv] by (rule set_remove1_eq)
  have lev_old: "level_of s' x = level_of s x" if "x \<in> set (remove1 n xs)" for x
    using that rms p(3) by auto
  have lf: "lev_filter s' k (remove1 n xs) = lev_filter s k (remove1 n xs)" for k
    by (rule lev_filter_cong) (use lev_old in auto)
  show ?thesis
    unfolding Inv_def
  proof (intro conjI)
    show "l_header s' = h" using p(1) InvD(1) [OF inv] by simp
    show "NULL \<notin> dom (heap s')" using p(2) InvD(2) [OF inv] by auto
    show "dom (heap s') = insert h (set (remove1 n xs))" using p(2) dm rms nh by auto
    show "h \<notin> set (remove1 n xs)" using InvD(4) [OF inv] rms by auto
    show "distinct (remove1 n xs)" using InvD(5) [OF inv] by simp
    show "key_of s' h = 0xFFFFFFFFFFFFFFFF" using p(4) nh InvD(6) [OF inv] by simp
    show "level_of s' h = 0" using p(3) nh InvD(7) [OF inv] by simp
    show "value_of s' h = NULL" using p(5) nh InvD(8) [OF inv] by simp
    show "0 \<le> l_level s'" by (rule lv(1))
    show "l_level s' < MaxNumberOfLevels" using lv(2) InvD(10) [OF inv] by simp
    show "\<forall>x \<in> set (remove1 n xs). 0 \<le> level_of s' x \<and> level_of s' x \<le> l_level s'"
      using lev_old lv(3) InvD(11) [OF inv] rms by auto
    show "l_level s' = 0 \<or> (\<exists>x \<in> set (remove1 n xs). level_of s' x = l_level s')"
      using lv(4) lev_old by auto
    show "sorted (map (key_of s') (remove1 n xs))"
    proof -
      have "\<forall>x \<in> set (remove1 n xs). key_of s' x = key_of s x"
        using rms p(4) by auto
      then have "map (key_of s') (remove1 n xs) = map (key_of s) (remove1 n xs)"
        by (simp add: map_eq_conv)
      then show ?thesis using sorted_map_remove1 [OF InvD(13) [OF inv], of n] by metis
    qed
    show "\<forall>k. in_bounds k \<longrightarrow> lnk (nxt s' k) (prv s' k) h (lev_filter s' k (remove1 n xs)) h"
      using del_chain [OF inv n dh] lf by simp
    show "\<forall>x \<in> set (remove1 n xs). \<forall>k. \<not> (0 \<le> k \<and> k \<le> level_of s' x) \<longrightarrow>
        nxt s' k x = None \<and> prv s' k x = None"
    proof (intro ballI allI impI)
      fix x k assume x: "x \<in> set (remove1 n xs)" and k: "\<not> (0 \<le> k \<and> k \<le> level_of s' x)"
      have xx: "x \<in> set xs" "x \<noteq> n" using x rms by auto
      have xh: "x \<noteq> h" using xx InvD(4) [OF inv] by auto
      have kx: "\<not> (0 \<le> k \<and> k \<le> level_of s x)" using k lev_old [OF x] by simp
      then have old: "nxt s k x = None \<and> prv s k x = None" using InvD(15) [OF inv] xx by blast
      show "nxt s' k x = None \<and> prv s' k x = None"
      proof (cases "0 \<le> k \<and> k \<le> ?m")
        case True
        have "x \<noteq> ?P k" using del_pred_level [of s h xs n k] kx xh True by auto
        moreover have "x \<noteq> ?C k" using del_succ_level [of s h xs n k] kx xh True by auto
        ultimately show ?thesis using p(6) True old xx by simp
      next
        case False
        then show ?thesis using p(7) old xx by simp
      qed
    qed
  qed
qed

subsection \<open>The list height is the greatest node level\<close>

lemma Inv_level_Max:
  assumes "Inv h s xs"
  shows "l_level s = Max (insert 0 (level_of s ` set xs))"
proof (rule Max_eqI [symmetric])
  show "finite (insert 0 (level_of s ` set xs))" by simp
  show "\<And>y. y \<in> insert 0 (level_of s ` set xs) \<Longrightarrow> y \<le> l_level s"
    using InvD(9,11) [OF assms] by auto
  show "l_level s \<in> insert 0 (level_of s ` set xs)"
    using InvD(12) [OF assms] by force
qed

lemma lnk_unique:
  assumes "lnk nx pv p xs z" "lnk nx pv p ys z" "z \<notin> set xs" "z \<notin> set ys"
  shows "xs = ys"
  using assms
proof (induction xs arbitrary: p ys)
  case Nil
  then show ?case by (cases ys) auto
next
  case (Cons x xs)
  then show ?case by (cases ys) auto
qed

section \<open>Reachable states\<close>

subsection \<open>The fresh list\<close>

lemma init_links_fields:
  "level (init_links h n i) = level n \<and> key (init_links h n i) = key n \<and>
   value (init_links h n i) = value n \<and>
   next (init_links h n i) = (\<lambda>j. if i \<le> j \<and> j < MaxNumberOfLevels then Some h else next n j) \<and>
   prev (init_links h n i) = (\<lambda>j. if i \<le> j \<and> j < MaxNumberOfLevels then Some h else prev n j)"
proof (induction h n i rule: init_links.induct)
  case (1 slnode n i)
  show ?case
  proof (cases "i < MaxNumberOfLevels")
    case True
    from 1 [OF True] show ?thesis
      by (subst (1 2 3 4 5) init_links.simps) (auto simp: True fun_eq_iff)
  next
    case False
    then show ?thesis
      by (subst (1 2 3 4 5) init_links.simps) (auto simp: fun_eq_iff)
  qed
qed

lemma init_Inv:
  assumes "skiplist_init a Map.empty = Inr (hp, h)"
  shows "Inv h (new_skiplist hp h) []"
proof -
  let ?n = "init_links a \<lparr>level = 0, key = 0xFFFFFFFFFFFFFFFF, value = NULL,
                     next = Map.empty, prev = Map.empty\<rparr> 0"
  from assms have a: "a \<noteq> NULL" "h = a" "hp = [a \<mapsto> ?n]"
    by (auto simp: skiplist_init_def Let_def split: if_splits)
  note f = init_links_fields [of a "\<lparr>level = 0, key = 0xFFFFFFFFFFFFFFFF, value = NULL,
                     next = Map.empty, prev = Map.empty\<rparr>" 0]
  have nx: "nxt (new_skiplist hp h) k h = (if in_bounds k then Some h else None)" for k
    using f by (simp add: a nxt_def new_skiplist_def in_bounds_def)
  have pv: "prv (new_skiplist hp h) k h = (if in_bounds k then Some h else None)" for k
    using f by (simp add: a prv_def new_skiplist_def in_bounds_def)
  show ?thesis
    unfolding Inv_def using f a(1) nx pv
    by (simp add: a(2,3) new_skiplist_def key_of_def level_of_def value_of_def
        lev_filter_def MaxNumberOfLevels_def)
qed

subsection \<open>Pointers stay inside the list\<close>

lemma lnk_next_in:
  "lnk nx pv a xs z \<Longrightarrow> p \<in> set (a # xs) \<Longrightarrow> \<exists>q. nx p = Some q \<and> q \<in> set (xs @ [z])"
  by (induction xs arbitrary: a) auto

lemma lnk_prev_in:
  "lnk nx pv a xs z \<Longrightarrow> p \<in> set (xs @ [z]) \<Longrightarrow> \<exists>q. pv p = Some q \<and> q \<in> set (a # xs)"
  by (induction xs arbitrary: a) auto

lemma Inv_ptr_closed:
  assumes inv: "Inv h s xs" and kb: "in_bounds k"
  shows "nxt s k p = Some r \<Longrightarrow> r \<in> dom (heap s)" and "prv s k p = Some r \<Longrightarrow> r \<in> dom (heap s)"
proof -
  have ch: "lnk (nxt s k) (prv s k) h (lev_filter s k xs) h" using InvD(14) [OF inv] kb by blast
  have dm: "dom (heap s) = insert h (set xs)" by (rule InvD(3) [OF inv])
  have sub: "set (lev_filter s k xs) \<subseteq> set xs" by (rule lev_filter_subset)
  have k0: "0 \<le> k" using kb by (simp add: in_bounds_def)
  have cases: "p \<in> set (h # lev_filter s k xs)" if "nxt s k p \<noteq> None \<or> prv s k p \<noteq> None"
  proof -
    have "p \<in> dom (heap s)" using that nxt_dom prv_dom by blast
    then have "p = h \<or> p \<in> set xs" using dm by auto
    then show ?thesis
    proof
      assume "p = h" then show ?thesis by simp
    next
      assume px: "p \<in> set xs"
      have "k \<le> level_of s p"
      proof (rule ccontr)
        assume "\<not> k \<le> level_of s p"
        then have "nxt s k p = None \<and> prv s k p = None" using InvD(15) [OF inv] px by blast
        then show False using that by simp
      qed
      then show ?thesis using px by (simp add: lev_filter_def)
    qed
  qed
  show "r \<in> dom (heap s)" if "nxt s k p = Some r"
  proof -
    have "p \<in> set (h # lev_filter s k xs)" using cases that by simp
    from lnk_next_in [OF ch this] that have "r \<in> set (lev_filter s k xs @ [h])" by simp
    then show ?thesis using sub dm by auto
  qed
  show "r \<in> dom (heap s)" if "prv s k p = Some r"
  proof -
    have "p \<in> set (h # lev_filter s k xs)" using cases that by simp
    then have "p \<in> set (lev_filter s k xs @ [h])" by auto
    from lnk_prev_in [OF ch this] that have "r \<in> set (h # lev_filter s k xs)" by simp
    then show ?thesis using sub dm by auto
  qed
qed

subsection \<open>The search for the sentinel's own key never ends\<close>

lemma max_key_ge: "k \<le> (0xFFFFFFFFFFFFFFFF :: u64)"
proof -
  have "(0xFFFFFFFFFFFFFFFF :: u64) = - 1" by simp
  then show ?thesis by (metis word_n1_ge)
qed

lemma search_level_max_diverges:
  assumes "search_level s key' k p = Some y"
  shows "\<not> (key' = 0xFFFFFFFFFFFFFFFF \<and> in_bounds k \<and> Inv h s xs \<and>
             p \<in> set (h # lev_filter s k xs))"
proof (rule search_level.raw_induct [where P = "\<lambda>s key' k p y.
    \<not> (key' = 0xFFFFFFFFFFFFFFFF \<and> in_bounds k \<and> Inv h s xs \<and>
       p \<in> set (h # lev_filter s k xs))", OF _ assms])
  fix f :: "state \<Rightarrow> keyType \<Rightarrow> int \<Rightarrow> addr \<Rightarrow> (fault + addr) option"
  fix s key' k p y
  assume IH: "\<And>s key' k p y. f s key' k p = Some y \<Longrightarrow>
      \<not> (key' = 0xFFFFFFFFFFFFFFFF \<and> in_bounds k \<and> Inv h s xs \<and>
         p \<in> set (h # lev_filter s k xs))"
  assume step: "(case get_next s p k of
        Inl e \<Rightarrow> Some (Inl e)
      | Inr q \<Rightarrow>
          (case get_node s q of
             Inl e \<Rightarrow> Some (Inl e)
           | Inr qn \<Rightarrow> if key qn \<le> key' then f s key' k q else Some (Inr p))) = Some y"
  show "\<not> (key' = 0xFFFFFFFFFFFFFFFF \<and> in_bounds k \<and> Inv h s xs \<and>
         p \<in> set (h # lev_filter s k xs))"
  proof
    assume c: "key' = 0xFFFFFFFFFFFFFFFF \<and> in_bounds k \<and> Inv h s xs \<and>
             p \<in> set (h # lev_filter s k xs)"
    then have inv: "Inv h s xs" and kb: "in_bounds k" and pin: "p \<in> set (h # lev_filter s k xs)"
      by simp_all
    have ch: "lnk (nxt s k) (prv s k) h (lev_filter s k xs) h" using InvD(14) [OF inv] kb by blast
    have dm: "dom (heap s) = insert h (set xs)" by (rule InvD(3) [OF inv])
    have sub: "set (lev_filter s k xs) \<subseteq> set xs" by (rule lev_filter_subset)
    from lnk_next_in [OF ch pin] obtain q where q: "nxt s k p = Some q"
      "q \<in> set (lev_filter s k xs @ [h])" by blast
    have pd: "p \<in> dom (heap s)" using q(1) by (rule nxt_dom)
    have qd: "q \<in> dom (heap s)" using q(2) sub dm by auto
    have nz: "p \<noteq> NULL" "q \<noteq> NULL" using pd qd InvD(2) [OF inv] by auto
    have g: "get_next s p k = Inr q" using nz kb q(1) by (simp add: get_next_ok)
    from qd obtain qn where qn: "heap s q = Some qn" by auto
    have gq: "get_node s q = Inr qn" using nz qn by (simp add: get_node_ok)
    have le: "key qn \<le> key'" using c max_key_ge by simp
    have "f s key' k q = Some y" using step by (simp add: g gq le)
    moreover have "q \<in> set (h # lev_filter s k xs)" using q(2) by auto
    ultimately show False using IH [of s key' k q y] c by blast
  qed
qed

lemma insert_max_diverges:
  assumes "Inv h s xs"
  shows "skiplist_insert h s 0xFFFFFFFFFFFFFFFF value' randseed q = None"
proof -
  have kb: "in_bounds (l_level s)" using InvD(9,10) [OF assms] by (simp add: in_bounds_def)
  have "search_level s 0xFFFFFFFFFFFFFFFF (l_level s) h = None"
  proof (cases "search_level s 0xFFFFFFFFFFFFFFFF (l_level s) h")
    case None
    then show ?thesis .
  next
    case (Some y)
    from search_level_max_diverges [OF Some, of h xs] kb assms show ?thesis by simp
  qed
  then have "find_update s 0xFFFFFFFFFFFFFFFF (l_level s) h Map.empty = None"
    by (subst find_update.simps) simp
  then show ?thesis by (simp add: skiplist_insert_def)
qed

lemma insert_not_null:
  "skiplist_insert h s key' value' randseed q = Some (Inr r) \<Longrightarrow> q \<noteq> NULL"
  unfolding skiplist_insert_def Let_def
  by (cases "q = NULL") (auto split: option.splits sum.splits if_splits)

subsection \<open>Reachable states satisfy the invariant\<close>

lemma reachable_Inv: "reachable h s H \<Longrightarrow> \<exists>xs. Inv h s xs \<and> set xs = H"
proof (induction rule: reachable.induct)
  case (init newNode hp slnode)
  from init_Inv [OF this] show ?case by (intro exI [of _ "[]"]) simp
next
  case (ins slnode s H newNode key' value' randseed s' q)
  then obtain xs where xs: "Inv slnode s xs" "set xs = H" by blast
  have key: "key' \<noteq> 0xFFFFFFFFFFFFFFFF"
    using insert_max_diverges [OF xs(1)] ins(3) by auto
  have qz: "newNode \<noteq> NULL" using ins(3) by (rule insert_not_null)
  from insert_result [OF xs(1) key ins(2) qz, of value' randseed]
  obtain s'' where s'': "skiplist_insert slnode s key' value' randseed newNode =
      Some (Inr (s'', newNode))" "ins_post slnode s xs key' value' randseed newNode s''"
    by blast
  then have e: "s'' = s'" "q = newNode" using ins(3) by simp_all
  have "Inv slnode s' (le_part s key' xs @ newNode # gt_part s key' xs)"
    using insert_Inv [OF xs(1) ins(2) qz s''(2)] e by simp
  moreover have "set (le_part s key' xs @ newNode # gt_part s key' xs) = insert q H"
    using parts_append [of s key' xs] xs(2) e(2)
    by (metis Un_insert_right list.simps(15) set_append)
  ultimately show ?case by blast
next
  case (del slnode s H node s')
  then obtain xs where xs: "Inv slnode s xs" "set xs = H" by blast
  have n: "node \<in> set xs" using del(2) xs(2) by simp
  from delete_result [OF xs(1) n] del(3) have "del_post slnode s xs node s'" by auto
  then have "Inv slnode s' (remove1 node xs)" by (rule delete_Inv [OF xs(1) n])
  moreover have "set (remove1 node xs) = H - {node}"
    using InvD(5) [OF xs(1)] xs(2) by (simp add: set_remove1_eq)
  ultimately show ?case by blast
qed

subsection \<open>Steps from a reachable state\<close>

lemma reachable_dom:
  assumes "reachable h s H"
  shows "dom (heap s) = insert h H" and "h \<notin> H" and "NULL \<notin> insert h H" and "finite H"
proof -
  from reachable_Inv [OF assms] obtain xs where xs: "Inv h s xs" "set xs = H" by blast
  show "dom (heap s) = insert h H" using InvD(3) [OF xs(1)] xs(2) by simp
  show "h \<notin> H" using InvD(4) [OF xs(1)] xs(2) by simp
  show "NULL \<notin> insert h H" using InvD(2,3) [OF xs(1)] xs(2) by simp
  show "finite H" using xs(2) by auto
qed

lemma reachable_insert_post:
  assumes "reachable h s H" "newNode \<notin> dom (heap s)"
    "skiplist_insert h s key' value' randseed newNode = Some (Inr (s', q))"
  shows "\<exists>xs. Inv h s xs \<and> set xs = H \<and> q = newNode \<and> q \<noteq> NULL \<and>
           key' \<noteq> 0xFFFFFFFFFFFFFFFF \<and> ins_post h s xs key' value' randseed q s' \<and>
           Inv h s' (le_part s key' xs @ q # gt_part s key' xs)"
proof -
  from reachable_Inv [OF assms(1)] obtain xs where xs: "Inv h s xs" "set xs = H" by blast
  have key: "key' \<noteq> 0xFFFFFFFFFFFFFFFF"
    using insert_max_diverges [OF xs(1)] assms(3) by auto
  have qz: "newNode \<noteq> NULL" using assms(3) by (rule insert_not_null)
  from insert_result [OF xs(1) key assms(2) qz, of value' randseed]
  obtain s'' where s'': "skiplist_insert h s key' value' randseed newNode =
      Some (Inr (s'', newNode))" "ins_post h s xs key' value' randseed newNode s''"
    by blast
  then have e: "s'' = s'" "q = newNode" using assms(3) by simp_all
  have "Inv h s' (le_part s key' xs @ newNode # gt_part s key' xs)"
    using insert_Inv [OF xs(1) assms(2) qz s''(2)] e by simp
  then show ?thesis using xs key qz s''(2) e by blast
qed

lemma reachable_delete_post:
  assumes "reachable h s H" "node \<in> H"
  shows "\<exists>xs s'. Inv h s xs \<and> set xs = H \<and> skiplist_delnode h s node = Inr s' \<and>
           del_post h s xs node s' \<and> Inv h s' (remove1 node xs)"
proof -
  from reachable_Inv [OF assms(1)] obtain xs where xs: "Inv h s xs" "set xs = H" by blast
  have n: "node \<in> set xs" using assms(2) xs(2) by simp
  from delete_result [OF xs(1) n] obtain s' where
    s': "skiplist_delnode h s node = Inr s'" "del_post h s xs node s'" by blast
  have "Inv h s' (remove1 node xs)" by (rule delete_Inv [OF xs(1) n s'(2)])
  then show ?thesis using xs s' by blast
qed

lemma reachable_fresh: "a \<noteq> NULL \<Longrightarrow> reachable a (fresh_list a) {}"
proof -
  assume a: "a \<noteq> NULL"
  let ?hp = "[a \<mapsto> init_links a \<lparr>level = 0, key = 0xFFFFFFFFFFFFFFFF, value = NULL,
                     next = Map.empty, prev = Map.empty\<rparr> 0]"
  have i: "skiplist_init a Map.empty = Inr (?hp, a)"
    using a by (simp add: skiplist_init_def Let_def)
  then have "fresh_list a = new_skiplist ?hp a" by (simp add: fresh_list_def)
  then show ?thesis using reachable.init [OF i] by simp
qed

lemma reachable_after_insert:
  assumes "reachable h s H" "key' \<noteq> 0xFFFFFFFFFFFFFFFF" "q \<notin> insert h H" "q \<noteq> NULL"
  shows "skiplist_insert h s key' value' randseed q =
           Some (Inr (after_insert h s key' value' randseed q, q))"
    and "reachable h (after_insert h s key' value' randseed q) (insert q H)"
proof -
  from reachable_Inv [OF assms(1)] obtain xs where xs: "Inv h s xs" "set xs = H" by blast
  have fresh: "q \<notin> dom (heap s)" using reachable_dom(1) [OF assms(1)] assms(3) by simp
  from insert_result [OF xs(1) assms(2) fresh assms(4), of value' randseed]
  obtain s' where s': "skiplist_insert h s key' value' randseed q = Some (Inr (s', q))" by blast
  then have e: "after_insert h s key' value' randseed q = s'" by (simp add: after_insert_def)
  show "skiplist_insert h s key' value' randseed q =
           Some (Inr (after_insert h s key' value' randseed q, q))" using s' e by simp
  show "reachable h (after_insert h s key' value' randseed q) (insert q H)"
    using reachable.ins [OF assms(1) fresh s'] e by simp
qed

lemma reachable_after_delete:
  assumes "reachable h s H" "node \<in> H"
  shows "skiplist_delnode h s node = Inr (after_delete h s node)"
    and "reachable h (after_delete h s node) (H - {node})"
proof -
  from reachable_delete_post [OF assms] obtain s' where
    s': "skiplist_delnode h s node = Inr s'" by blast
  then have e: "after_delete h s node = s'" by (simp add: after_delete_def)
  show "skiplist_delnode h s node = Inr (after_delete h s node)" using s' e by simp
  show "reachable h (after_delete h s node) (H - {node})"
    using reachable.del [OF assms s'] e by simp
qed

lemma Inv_sorted_chain:
  assumes "Inv h s xs" "0 \<le> k" "k \<le> l_level s"
  shows "sorted_chain h s k"
proof -
  have kb: "in_bounds k" using assms(2,3) InvD(10) [OF assms(1)] by (simp add: in_bounds_def)
  let ?c = "lev_filter s k xs"
  have "lnk (nxt s k) (prv s k) h ?c h" using InvD(14) [OF assms(1)] kb by blast
  moreover have "h \<notin> set ?c" using InvD(4) [OF assms(1)] lev_filter_subset by blast
  moreover have "sorted (map (key_of s) ?c)"
    using InvD(13) [OF assms(1)] unfolding lev_filter_def by (rule sorted_filter)
  ultimately show ?thesis unfolding sorted_chain_def by blast
qed

lemma Inv_level_set:
  assumes "Inv h s xs"
  shows "l_level s = (if set xs = {} then 0 else Max (level_of s ` set xs))"
proof (cases "set xs = {}")
  case True
  then show ?thesis using InvD(12) [OF assms] by auto
next
  case False
  have "Max (level_of s ` set xs) = l_level s"
  proof (rule Max_eqI)
    show "finite (level_of s ` set xs)" by simp
    show "\<And>y. y \<in> level_of s ` set xs \<Longrightarrow> y \<le> l_level s" using InvD(11) [OF assms] by auto
    show "l_level s \<in> level_of s ` set xs"
    proof (cases "l_level s = 0")
      case True
      from False obtain x where x: "x \<in> set xs" by (cases xs) auto
      have "\<exists>y \<in> set xs. level_of s y = 0"
      proof (rule ccontr)
        assume "\<not> (\<exists>y \<in> set xs. level_of s y = 0)"
        then have "level_of s x \<noteq> 0" using x by blast
        then show False using InvD(11) [OF assms] x True by force
      qed
      then show ?thesis using True by force
    next
      case False
      then show ?thesis using InvD(12) [OF assms] by force
    qed
  qed
  then show ?thesis using False by simp
qed

section \<open>The properties of the specification\<close>

subsection \<open>Pointer facts after an insert\<close>

lemma ins_post_ptrs:
  assumes inv: "Inv h s xs" and fresh: "q \<notin> dom (heap s)"
    and post: "ins_post h s xs key' value' randseed q s'"
    and j: "0 \<le> j" "j \<le> new_level s randseed"
  shows "nxt s j (pred_at s h key' xs j) = Some (succ_at s h key' xs j)"
    and "nxt s' j (pred_at s h key' xs j) = Some q"
    and "prv s' j q = Some (pred_at s h key' xs j)"
    and "nxt s' j q = Some (succ_at s h key' xs j)"
    and "prv s' j (succ_at s h key' xs j) = Some q"
proof -
  let ?P = "pred_at s h key' xs j" and ?C = "succ_at s h key' xs j"
  note nb = new_level_bounds [OF InvD(9,10) [OF inv], of randseed]
  have jb: "in_bounds j" using j nb(3) by (simp add: in_bounds_def)
  have dm: "dom (heap s) = insert h (set xs)" by (rule InvD(3) [OF inv])
  have Pq: "?P \<noteq> q" using pred_at_in [of s h key' xs j] dm fresh by auto
  have Cq: "?C \<noteq> q" using succ_at_in [of s h key' xs j] dm fresh by auto
  have e: "nxt s' j = (nxt s j)(q \<mapsto> ?C, ?P \<mapsto> q)" "prv s' j = (prv s j)(q \<mapsto> ?P, ?C \<mapsto> q)"
    using post j unfolding ins_post_def by blast+
  show "nxt s j ?P = Some ?C" by (rule Inv_pred_succ(1) [OF inv jb])
  show "nxt s' j ?P = Some q" using e(1) by simp
  show "prv s' j q = Some ?P" using e(2) Cq by simp
  show "nxt s' j q = Some ?C" using e(1) Pq by simp
  show "prv s' j ?C = Some q" using e(2) by simp
qed

lemma ins_post_level:
  assumes "ins_post h s xs key' value' randseed q s'" "0 \<le> l_level s"
  shows "l_level s' = (if randomLevel randseed > l_level s then l_level s + 1 else l_level s)"
proof -
  have "l_level s' = max (l_level s) (new_level s randseed)"
    using assms(1) by (simp add: ins_post_def)
  then show ?thesis by (auto simp: new_level_def)
qed

subsection \<open>Example states\<close>

declare search_level.simps [code]

lemma ex_reachable:
  "reachable 1 (fresh_list 1) {}" "reachable 1 ex1 {2}" "reachable 1 ex2 {3, 2}"
  "reachable 1 ex3 {4, 3, 2}"
proof -
  show 0: "reachable 1 (fresh_list 1) {}" by (rule reachable_fresh) simp
  show 1: "reachable 1 ex1 {2}"
    unfolding ex1_def by (rule reachable_after_insert(2) [OF 0]) simp_all
  show 2: "reachable 1 ex2 {3, 2}"
    unfolding ex2_def by (rule reachable_after_insert(2) [OF 1]) simp_all
  show "reachable 1 ex3 {4, 3, 2}"
    unfolding ex3_def by (rule reachable_after_insert(2) [OF 2]) simp_all
qed

lemma ex_levels:
  "l_level ex1 = 0" "l_level ex2 = 1" "l_level ex3 = 1"
  "level_of ex2 2 = 0" "level_of ex2 3 = 1"
proof -
  show "l_level ex1 = 0" by code_simp
  show "l_level ex2 = 1" by code_simp
  show "l_level ex3 = 1" by code_simp
  show "level_of ex2 2 = 0" by code_simp
  show "level_of ex2 3 = 1" by code_simp
qed

text \<open>
  C1.  In every state reachable from a fresh list by inserts and deletes, at every level
  from 0 to the list's height the chain from the sentinel returns to the sentinel and its
  keys are non-decreasing.  Both operations preserve this: their results are reachable.
\<close>

theorem circular_sorted_chain:
  assumes "reachable h s H" "0 \<le> k" "k \<le> l_level s"
  shows "sorted_chain h s k"
proof -
  from reachable_Inv [OF assms(1)] obtain xs where "Inv h s xs" by blast
  then show ?thesis using assms(2,3) by (rule Inv_sorted_chain)
qed

theorem circular_sorted_chain_witness:
  "l_level ex3 = 1 \<and> sorted_chain 1 ex3 0 \<and> sorted_chain 1 ex3 1"
  using circular_sorted_chain [OF ex_reachable(4), of 0]
    circular_sorted_chain [OF ex_reachable(4), of 1] ex_levels(3)
  by simp

text \<open>
  C2.  In every reachable state the list's height is the greatest level of a linked node
  (0 when none is linked).  An insert that returns leaves the height unchanged, or raises
  it by exactly one when the randomized level exceeds it; then the new node has the new
  height and the sentinel is its predecessor at that level.  After a delete the height is
  again the greatest level of the remaining nodes.
\<close>

theorem list_level_is_max:
  assumes "reachable h s H"
  shows "l_level s = (if H = {} then 0 else Max (level_of s ` H)) \<and>
         (newNode \<notin> dom (heap s) \<and>
          skiplist_insert h s key' value' randseed newNode = Some (Inr (s', q)) \<longrightarrow>
            l_level s' = (if randomLevel randseed > l_level s then l_level s + 1 else l_level s) \<and>
            l_level s' = Max (level_of s' ` insert q H) \<and>
            (randomLevel randseed > l_level s \<longrightarrow>
               level_of s' q = l_level s' \<and> prv s' (l_level s') q = Some h \<and>
               nxt s' (l_level s') h = Some q)) \<and>
         (node \<in> H \<and> skiplist_delnode h s node = Inr s'' \<longrightarrow>
            l_level s'' = (if H - {node} = {} then 0 else Max (level_of s'' ` (H - {node}))))"
    (is "?A \<and> (?B \<longrightarrow> ?C) \<and> (?D \<longrightarrow> ?E)")
proof -
  have 1: "l_level s = (if H = {} then 0 else Max (level_of s ` H))"
  proof -
    from reachable_Inv [OF assms] obtain xs where xs: "Inv h s xs" "set xs = H" by blast
    show ?thesis using Inv_level_set [OF xs(1)] xs(2) by simp
  qed
  have 2: "l_level s' = (if randomLevel randseed > l_level s then l_level s + 1 else l_level s) \<and>
            l_level s' = Max (level_of s' ` insert q H) \<and>
            (randomLevel randseed > l_level s \<longrightarrow>
               level_of s' q = l_level s' \<and> prv s' (l_level s') q = Some h \<and>
               nxt s' (l_level s') h = Some q)"
    if a: "newNode \<notin> dom (heap s) \<and>
      skiplist_insert h s key' value' randseed newNode = Some (Inr (s', q))"
  proof -
    from reachable_insert_post [OF assms, of newNode key' value' randseed s' q] a
    obtain xs where xs: "Inv h s xs" "set xs = H" "q = newNode"
      "ins_post h s xs key' value' randseed q s'"
      "Inv h s' (le_part s key' xs @ q # gt_part s key' xs)" by blast
    have sx: "set (le_part s key' xs @ q # gt_part s key' xs) = insert q H"
      using parts_append [of s key' xs] xs(2) by (metis Un_insert_right list.simps(15) set_append)
    have lv: "l_level s' = (if randomLevel randseed > l_level s then l_level s + 1 else l_level s)"
      by (rule ins_post_level [OF xs(4) InvD(9) [OF xs(1)]])
    have mx: "l_level s' = Max (level_of s' ` insert q H)"
      using Inv_level_set [OF xs(5)] unfolding sx by simp
    have gr: "level_of s' q = l_level s' \<and> prv s' (l_level s') q = Some h \<and>
        nxt s' (l_level s') h = Some q" if g: "randomLevel randseed > l_level s"
    proof -
      have K: "new_level s randseed = l_level s + 1" using g by (simp add: new_level_def)
      then have K': "new_level s randseed = l_level s'" using lv g by simp
      have fresh: "q \<notin> dom (heap s)" using a xs(3) by simp
      have P: "pred_at s h key' xs (l_level s') = h"
        by (rule pred_at_above [OF xs(1)]) (use lv g in simp)
      have j: "0 \<le> l_level s'" "l_level s' \<le> new_level s randseed"
        using lv g K InvD(9) [OF xs(1)] by simp_all
      have "level_of s' q = new_level s randseed" using xs(4) by (simp add: ins_post_def)
      then show ?thesis
        using ins_post_ptrs(2,3) [OF xs(1) fresh xs(4) j] P K' by simp
    qed
    show ?thesis using lv mx gr by blast
  qed
  have 3: "l_level s'' = (if H - {node} = {} then 0 else Max (level_of s'' ` (H - {node})))"
    if a: "node \<in> H \<and> skiplist_delnode h s node = Inr s''"
  proof -
    from reachable_delete_post [OF assms, of node] a
    obtain xs where xs: "Inv h s xs" "set xs = H" "Inv h s'' (remove1 node xs)" by auto
    have "set (remove1 node xs) = H - {node}"
      using InvD(5) [OF xs(1)] xs(2) by (simp add: set_remove1_eq)
    then show ?thesis using Inv_level_set [OF xs(3)] by simp
  qed
  show ?thesis
  proof (intro conjI)
    show ?A by (rule 1)
    show "?B \<longrightarrow> ?C" by (rule impI) (rule 2)
    show "?D \<longrightarrow> ?E" by (rule impI) (rule 3)
  qed
qed

theorem list_level_is_max_witness:
  "l_level ex2 = Max {level_of ex2 3, level_of ex2 2} \<and> l_level ex2 = 1 \<and>
   randomLevel 256 = 4 \<and> l_level (after_insert 1 ex2 8 80 256 4) = 2 \<and>
   level_of (after_insert 1 ex2 8 80 256 4) 4 = 2 \<and>
   prv (after_insert 1 ex2 8 80 256 4) 2 4 = Some 1 \<and>
   nxt (after_insert 1 ex2 8 80 256 4) 2 1 = Some 4 \<and>
   l_level (after_delete 1 ex2 3) = Max {level_of (after_delete 1 ex2 3) 2} \<and>
   l_level (after_delete 1 ex2 3) = 0"
proof -
  have i: "skiplist_insert 1 ex2 8 80 256 4 = Some (Inr (after_insert 1 ex2 8 80 256 4, 4))"
    by (rule reachable_after_insert(1) [OF ex_reachable(3)]) simp_all
  have d: "skiplist_delnode 1 ex2 3 = Inr (after_delete 1 ex2 3)"
    by (rule reachable_after_delete(1) [OF ex_reachable(3)]) simp
  have f: "4 \<notin> dom (heap ex2)" using reachable_dom(1) [OF ex_reachable(3)] by simp
  have r: "randomLevel 256 = 4" by code_simp
  have l0: "level_of (after_delete 1 ex2 3) 2 = 0" by code_simp
  have e: "{3, 2 :: addr} - {3} = {2}" by auto
  let ?A = "after_insert 1 ex2 8 80 256 4" and ?D = "after_delete 1 ex2 3"
  note T = list_level_is_max [OF ex_reachable(3), of 4 8 80 256 ?A 4 3 ?D]
  have p1: "l_level ex2 = Max {level_of ex2 3, level_of ex2 2}"
    using T [THEN conjunct1] by simp
  have T2: "l_level ?A = (if randomLevel 256 > l_level ex2 then l_level ex2 + 1 else l_level ex2)"
    "randomLevel 256 > l_level ex2 \<longrightarrow>
       level_of ?A 4 = l_level ?A \<and> prv ?A (l_level ?A) 4 = Some 1 \<and>
       nxt ?A (l_level ?A) 1 = Some 4"
    using T [THEN conjunct2, THEN conjunct1] i f by blast+
  have p2: "l_level ?A = 2" using T2(1) r ex_levels(2) by simp
  have g: "randomLevel 256 > l_level ex2" using r ex_levels(2) by simp
  have p3: "level_of ?A 4 = 2 \<and> prv ?A 2 4 = Some 1 \<and> nxt ?A 2 1 = Some 4"
    using T2(2) [rule_format, OF g] unfolding p2 .
  have "l_level ?D = (if {3, 2 :: addr} - {3} = {} then 0
      else Max (level_of ?D ` ({3, 2} - {3})))"
    using T [THEN conjunct2, THEN conjunct2] d by blast
  then have p4: "l_level ?D = Max {level_of ?D 2}" unfolding e by simp
  then have p5: "l_level ?D = 0" using l0 by simp
  show ?thesis using p1 ex_levels(2) r p2 p3 p4 p5 by blast
qed

text \<open>
  C10.  The sentinel's key, level and value are never written: in every reachable state
  the sentinel still has the greatest 64-bit key, level 0 and an empty value.
\<close>

theorem sentinel_fields_fixed:
  assumes "reachable h s H"
  shows "\<exists>n. heap s h = Some n \<and> key n = 0xFFFFFFFFFFFFFFFF \<and> level n = 0 \<and> value n = NULL"
proof -
  from reachable_Inv [OF assms] obtain xs where xs: "Inv h s xs" by blast
  have "h \<in> dom (heap s)" using InvD(3) [OF xs] by simp
  then obtain n where n: "heap s h = Some n" by auto
  then show ?thesis
    using InvD(6,7,8) [OF xs] by (simp add: key_of_def level_of_def value_of_def)
qed

theorem sentinel_fields_fixed_witness:
  "\<exists>n. heap (after_delete 1 ex3 3) 1 = Some n \<and> key n = 0xFFFFFFFFFFFFFFFF \<and> level n = 0 \<and>
       value n = NULL"
  by (rule sentinel_fields_fixed [OF reachable_after_delete(2) [OF ex_reachable(4), of 3]]) simp

subsection \<open>More example states\<close>

lemma fifo_reachable: "reachable 1 fifo1 {2}" "reachable 1 fifo2 {3, 2}"
proof -
  show 1: "reachable 1 fifo1 {2}"
    unfolding fifo1_def by (rule reachable_after_insert(2) [OF ex_reachable(1)]) simp_all
  show "reachable 1 fifo2 {3, 2}"
    unfolding fifo2_def by (rule reachable_after_insert(2) [OF 1]) simp_all
qed

lemma top_reachable: "reachable 1 top1 {2}" "reachable 1 top2 {3, 2}" "reachable 1 top3 {3}"
proof -
  show 1: "reachable 1 top1 {2}"
    unfolding top1_def by (rule reachable_after_insert(2) [OF ex_reachable(1)]) simp_all
  show 2: "reachable 1 top2 {3, 2}"
    unfolding top2_def by (rule reachable_after_insert(2) [OF 1]) simp_all
  have "reachable 1 top3 ({3, 2} - {2})"
    unfolding top3_def by (rule reachable_after_delete(2) [OF 2]) simp
  moreover have "{3, 2 :: addr} - {2} = {3}" by auto
  ultimately show "reachable 1 top3 {3}" by simp
qed

text \<open>
  C5 (as stated, refuted).  On a fresh list, an insert with the key \<open>2^64-1\<close>, the
  sentinel's own key, never returns: the search loop finds every key \<open><=\<close> the target,
  the sentinel's included, and goes round the chain for ever.
\<close>

theorem insert_max_key_never_returns:
  "skiplist_insert 1 (fresh_list 1) 0xFFFFFFFFFFFFFFFF 7 0 2 = None"
proof -
  from reachable_Inv [OF ex_reachable(1)] obtain xs where "Inv 1 (fresh_list 1) xs" by blast
  then show ?thesis by (rule insert_max_diverges)
qed

text \<open>
  C5 (amended).  In every reachable state, an insert with any key below \<open>2^64-1\<close>, any
  value and any entropy returns the handle of the new node (the node the allocator gave),
  without a fault; duplicate keys are accepted.
\<close>

theorem insert_returns:
  assumes "reachable h s H" "key' \<noteq> 0xFFFFFFFFFFFFFFFF"
    "newNode \<notin> dom (heap s)" "newNode \<noteq> NULL"
  shows "\<exists>s'. skiplist_insert h s key' value' randseed newNode = Some (Inr (s', newNode))"
proof -
  from reachable_Inv [OF assms(1)] obtain xs where xs: "Inv h s xs" by blast
  from insert_result [OF xs assms(2,3,4), of value' randseed] show ?thesis by blast
qed

theorem insert_returns_witness:
  "\<exists>s'. skiplist_insert 1 ex3 5 51 0 7 = Some (Inr (s', 7))"
proof (rule insert_returns [OF ex_reachable(4)])
  show "(5 :: keyType) \<noteq> 0xFFFFFFFFFFFFFFFF" by simp
  show "7 \<notin> dom (heap ex3)" using reachable_dom(1) [OF ex_reachable(4)] by simp
  show "(7 :: addr) \<noteq> NULL" by simp
qed

text \<open>
  C3 (as stated, refuted).  The claim is for every key.  With the key \<open>2^64-1\<close> the insert
  places nothing: in the list that holds one node of key 10 and level 1, the search at level
  1 goes from the sentinel to that node and back to the sentinel, whose key is \<open><=\<close> the
  target too, and never stops.
\<close>

theorem insert_sentinel_key_places_nothing:
  "dom (heap fifo1) = {1, 2} \<and> key_of fifo1 2 = 10 \<and> l_level fifo1 = 1 \<and>
   skiplist_insert 1 fifo1 0xFFFFFFFFFFFFFFFF 200 4 3 = None"
proof -
  from reachable_Inv [OF fifo_reachable(1)] obtain xs where "Inv 1 fifo1 xs" by blast
  then have "skiplist_insert 1 fifo1 0xFFFFFFFFFFFFFFFF 200 4 3 = None"
    by (rule insert_max_diverges)
  moreover have "dom (heap fifo1) = {1, 2}" using reachable_dom(1) [OF fifo_reachable(1)] by simp
  moreover have "key_of fifo1 2 = 10" by code_simp
  moreover have "l_level fifo1 = 1" by code_simp
  ultimately show ?thesis by simp
qed

text \<open>
  C3 (amended).  In every reachable state and for every key below \<open>2^64-1\<close>, the insert
  returns and places the new node after every linked node whose key is less than or equal to
  the new key, at each level.  At each level \<open>k\<close> from 0 to the new height, the chain before
  the insert is \<open>ys @ zs\<close> with the keys of \<open>ys\<close> \<open><=\<close> the new key and the keys of \<open>zs\<close>
  greater; the search (\<open>find_update\<close>, at the levels of the old height) records in
  \<open>update[k]\<close> the last node of \<open>ys\<close>, the sentinel when \<open>ys\<close> is empty; and the chain after
  the insert is \<open>ys @ newNode # zs\<close> at the levels of the new node, unchanged above them.  So
  of two nodes inserted with the same key, the first inserted comes first at every level.
\<close>

theorem insert_after_equal_keys:
  assumes "reachable h s H" "key' \<noteq> 0xFFFFFFFFFFFFFFFF"
    "newNode \<notin> dom (heap s)" "newNode \<noteq> NULL"
  shows "\<exists>s' update.
           skiplist_insert h s key' value' randseed newNode = Some (Inr (s', newNode)) \<and>
           find_update s key' (l_level s) h Map.empty = Some (Inr update) \<and>
           key_of s' newNode = key' \<and> value_of s' newNode = value' \<and>
           (\<forall>k. 0 \<le> k \<and> k \<le> l_level s' \<longrightarrow>
              (\<exists>ys zs. lnk (nxt s k) (prv s k) h (ys @ zs) h \<and> h \<notin> set (ys @ zs) \<and>
                 (\<forall>y \<in> set ys. key_of s y \<le> key') \<and> (\<forall>z \<in> set zs. key' < key_of s z) \<and>
                 (k \<le> l_level s \<longrightarrow> update k = Some (last (h # ys))) \<and>
                 (if k \<le> level_of s' newNode
                  then lnk (nxt s' k) (prv s' k) h (ys @ newNode # zs) h
                  else lnk (nxt s' k) (prv s' k) h (ys @ zs) h)))"
proof -
  let ?q = newNode
  let ?K = "new_level s randseed"
  from reachable_Inv [OF assms(1)] obtain xs where xs: "Inv h s xs" by blast
  from insert_result [OF xs assms(2,3,4), of value' randseed]
  obtain s' where s': "skiplist_insert h s key' value' randseed ?q = Some (Inr (s', ?q))"
    "ins_post h s xs key' value' randseed ?q s'" by blast
  let ?ys = "le_part s key' xs" and ?zs = "gt_part s key' xs"
  let ?upd = "\<lambda>j. if 0 \<le> j \<and> j \<le> l_level s then Some (pred_at s h key' xs j) else None"
  have inv': "Inv h s' (?ys @ ?q # ?zs)" by (rule insert_Inv [OF xs assms(3,4) s'(2)])
  have fu: "find_update s key' (l_level s) h Map.empty = Some (Inr ?upd)"
    by (rule Inv_find_update [OF xs assms(2)])
  have ip: "level_of s' = (level_of s)(?q := ?K)" "key_of s' = (key_of s)(?q := key')"
    "value_of s' = (value_of s)(?q := value')"
    "\<forall>j. \<not> (0 \<le> j \<and> j \<le> ?K) \<longrightarrow> nxt s' j = nxt s j \<and> prv s' j = prv s j"
    using s'(2) unfolding ins_post_def by blast+
  have dm: "dom (heap s) = insert h (set xs)" by (rule InvD(3) [OF xs])
  have qx: "?q \<notin> set xs" using dm assms(3) by auto
  have sub: "set ?ys \<subseteq> set xs" "set ?zs \<subseteq> set xs"
    by (rule le_part_subset, rule gt_part_subset)
  have lev_old: "\<forall>x \<in> set xs. level_of s' x = level_of s x" using ip(1) qx by auto
  have lfy: "lev_filter s' j ?ys = lev_filter s j ?ys" for j
    by (rule lev_filter_cong) (use lev_old sub in auto)
  have lfz: "lev_filter s' j ?zs = lev_filter s j ?zs" for j
    by (rule lev_filter_cong) (use lev_old sub in auto)
  have lq: "level_of s' ?q = ?K" using ip(1) by simp
  have kv: "key_of s' ?q = key'" "value_of s' ?q = value'" using ip(2,3) by simp_all
  have lev: "\<exists>ys zs. lnk (nxt s k) (prv s k) h (ys @ zs) h \<and> h \<notin> set (ys @ zs) \<and>
                 (\<forall>y \<in> set ys. key_of s y \<le> key') \<and> (\<forall>z \<in> set zs. key' < key_of s z) \<and>
                 (k \<le> l_level s \<longrightarrow> ?upd k = Some (last (h # ys))) \<and>
                 (if k \<le> level_of s' ?q
                  then lnk (nxt s' k) (prv s' k) h (ys @ ?q # zs) h
                  else lnk (nxt s' k) (prv s' k) h (ys @ zs) h)"
    if k: "0 \<le> k \<and> k \<le> l_level s'" for k
  proof -
    let ?A = "lev_filter s k ?ys" and ?B = "lev_filter s k ?zs"
    have kb: "in_bounds k" using k InvD(10) [OF inv'] by (simp add: in_bounds_def)
    have 1: "lnk (nxt s k) (prv s k) h (?A @ ?B) h" by (rule Inv_chain [OF xs kb])
    have sA: "set ?A \<subseteq> set ?ys" and sB: "set ?B \<subseteq> set ?zs" by (rule lev_filter_subset)+
    have 2: "h \<notin> set (?A @ ?B)" using sA sB sub InvD(4) [OF xs] by auto
    have 3: "\<forall>y \<in> set ?A. key_of s y \<le> key'" using sA le_part_keys by blast
    have 4: "\<forall>z \<in> set ?B. key' < key_of s z"
      using sB gt_part_keys [OF InvD(13) [OF xs]] by fastforce
    have 5: "k \<le> l_level s \<longrightarrow> ?upd k = Some (last (h # ?A))"
      using k by (simp only: pred_at_def) simp
    have 6: "if k \<le> level_of s' ?q
                  then lnk (nxt s' k) (prv s' k) h (?A @ ?q # ?B) h
                  else lnk (nxt s' k) (prv s' k) h (?A @ ?B) h"
    proof (cases "k \<le> level_of s' ?q")
      case True
      have "lev_filter s' k (?ys @ ?q # ?zs) = ?A @ ?q # ?B"
        using True lfy [of k] lfz [of k] by (simp add: lev_filter_def)
      moreover have "lnk (nxt s' k) (prv s' k) h (lev_filter s' k (?ys @ ?q # ?zs)) h"
        using InvD(14) [OF inv'] kb by blast
      ultimately show ?thesis using True by simp
    next
      case False
      then have "nxt s' k = nxt s k" "prv s' k = prv s k" using ip(4) lq by auto
      then show ?thesis using False 1 by simp
    qed
    show ?thesis using 1 2 3 4 5 6 by blast
  qed
  show ?thesis
  proof (intro exI conjI)
    show "skiplist_insert h s key' value' randseed ?q = Some (Inr (s', ?q))" by (rule s'(1))
    show "find_update s key' (l_level s) h Map.empty = Some (Inr ?upd)" by (rule fu)
    show "key_of s' ?q = key'" by (rule kv(1))
    show "value_of s' ?q = value'" by (rule kv(2))
    show "\<forall>k. 0 \<le> k \<and> k \<le> l_level s' \<longrightarrow>
              (\<exists>ys zs. lnk (nxt s k) (prv s k) h (ys @ zs) h \<and> h \<notin> set (ys @ zs) \<and>
                 (\<forall>y \<in> set ys. key_of s y \<le> key') \<and> (\<forall>z \<in> set zs. key' < key_of s z) \<and>
                 (k \<le> l_level s \<longrightarrow> ?upd k = Some (last (h # ys))) \<and>
                 (if k \<le> level_of s' ?q
                  then lnk (nxt s' k) (prv s' k) h (ys @ ?q # zs) h
                  else lnk (nxt s' k) (prv s' k) h (ys @ zs) h))"
      using lev by blast
  qed
qed

theorem insert_after_equal_keys_witness:
  "lnk (nxt fifo2 0) (prv fifo2 0) 1 [2, 3] 1 \<and> lnk (nxt fifo2 1) (prv fifo2 1) 1 [2, 3] 1 \<and>
   key_of fifo1 2 = 10 \<and> key_of fifo2 3 = 10 \<and> value_of fifo1 2 = 100 \<and>
   value_of fifo2 3 = 200"
proof -
  have i: "skiplist_insert 1 fifo1 10 200 4 3 = Some (Inr (fifo2, 3))"
    unfolding fifo2_def by (rule reachable_after_insert(1) [OF fifo_reachable(1)]) simp_all
  have f: "3 \<notin> dom (heap fifo1)" using reachable_dom(1) [OF fifo_reachable(1)] by simp
  have c: "lnk (nxt fifo1 0) (prv fifo1 0) 1 [2] 1" "lnk (nxt fifo1 1) (prv fifo1 1) 1 [2] 1"
    by code_simp+
  have k: "key_of fifo1 2 = 10" by code_simp
  have v: "value_of fifo1 2 = 100" by code_simp
  have l: "l_level fifo2 = 1" by code_simp
  have lq: "level_of fifo2 3 = 1" by code_simp
  have "\<exists>s' update.
           skiplist_insert 1 fifo1 10 200 4 3 = Some (Inr (s', 3)) \<and>
           find_update fifo1 10 (l_level fifo1) 1 Map.empty = Some (Inr update) \<and>
           key_of s' 3 = 10 \<and> value_of s' 3 = 200 \<and>
           (\<forall>k. 0 \<le> k \<and> k \<le> l_level s' \<longrightarrow>
              (\<exists>ys zs. lnk (nxt fifo1 k) (prv fifo1 k) 1 (ys @ zs) 1 \<and> 1 \<notin> set (ys @ zs) \<and>
                 (\<forall>y \<in> set ys. key_of fifo1 y \<le> 10) \<and> (\<forall>z \<in> set zs. 10 < key_of fifo1 z) \<and>
                 (k \<le> l_level fifo1 \<longrightarrow> update k = Some (last (1 # ys))) \<and>
                 (if k \<le> level_of s' 3
                  then lnk (nxt s' k) (prv s' k) 1 (ys @ 3 # zs) 1
                  else lnk (nxt s' k) (prv s' k) 1 (ys @ zs) 1)))"
    by (rule insert_after_equal_keys [OF fifo_reachable(1) _ f]) simp_all
  then obtain s' where r: "skiplist_insert 1 fifo1 10 200 4 3 = Some (Inr (s', 3))"
    "key_of s' 3 = 10" "value_of s' 3 = 200"
    "\<forall>k. 0 \<le> k \<and> k \<le> l_level s' \<longrightarrow>
       (\<exists>ys zs. lnk (nxt fifo1 k) (prv fifo1 k) 1 (ys @ zs) 1 \<and> 1 \<notin> set (ys @ zs) \<and>
          (\<forall>z \<in> set zs. 10 < key_of fifo1 z) \<and>
          (if k \<le> level_of s' 3
           then lnk (nxt s' k) (prv s' k) 1 (ys @ 3 # zs) 1
           else lnk (nxt s' k) (prv s' k) 1 (ys @ zs) 1))"
    by blast
  have e: "s' = fifo2" using r(1) i by simp
  have chain: "lnk (nxt fifo2 j) (prv fifo2 j) 1 [2, 3] 1"
    if j: "0 \<le> j \<and> j \<le> 1" and cj: "lnk (nxt fifo1 j) (prv fifo1 j) 1 [2] 1" for j
  proof -
    from r(4) [rule_format, of j] j l e
    obtain ys zs where y: "lnk (nxt fifo1 j) (prv fifo1 j) 1 (ys @ zs) 1" "1 \<notin> set (ys @ zs)"
      "\<forall>z \<in> set zs. 10 < key_of fifo1 z"
      "if j \<le> level_of fifo2 3
           then lnk (nxt fifo2 j) (prv fifo2 j) 1 (ys @ 3 # zs) 1
           else lnk (nxt fifo2 j) (prv fifo2 j) 1 (ys @ zs) 1"
      by auto
    have p: "lnk (nxt fifo2 j) (prv fifo2 j) 1 (ys @ 3 # zs) 1" using y(4) j lq by simp
    have "ys @ zs = [2]" by (rule lnk_unique [OF y(1) cj y(2)]) simp
    moreover have "2 \<notin> set zs" using y(3) k by auto
    ultimately have "ys = [2] \<and> zs = []"
      by (cases ys) (auto simp: Cons_eq_append_conv)
    then show ?thesis using p by simp
  qed
  have "lnk (nxt fifo2 0) (prv fifo2 0) 1 [2, 3] 1" by (rule chain [OF _ c(1)]) simp
  moreover have "lnk (nxt fifo2 1) (prv fifo2 1) 1 [2, 3] 1" by (rule chain [OF _ c(2)]) simp
  ultimately show ?thesis using k v r(2,3) e by simp
qed

text \<open>
  C6 (as stated, refuted).  The node at address 3 is the only node of the list and has the
  list's height, 2.  Deleting it leaves no node at level 2, and the height falls to 0: by
  two, not by exactly one.
\<close>

theorem delete_top_drops_two_levels:
  "dom (heap top3) = {1, 3} \<and> l_level top3 = 2 \<and> level_of top3 3 = 2 \<and>
   skiplist_delnode 1 top3 3 = Inr (after_delete 1 top3 3) \<and>
   l_level (after_delete 1 top3 3) = 0 \<and>
   l_level (after_delete 1 top3 3) \<noteq> l_level top3 - 1"
proof -
  have 1: "l_level top3 = 2" by code_simp
  have 2: "level_of top3 3 = 2" by code_simp
  have 3: "skiplist_delnode 1 top3 3 = Inr (after_delete 1 top3 3)"
    by (rule reachable_after_delete(1) [OF top_reachable(3)]) simp
  have 4: "l_level (after_delete 1 top3 3) = 0" by code_simp
  have 5: "dom (heap top3) = {1, 3}" using reachable_dom(1) [OF top_reachable(3)] by simp
  show ?thesis using 1 2 3 4 5 by simp
qed

text \<open>
  C6 (amended).  Deleting a node whose level is the list's height returns, and the height
  becomes the greatest level of the remaining nodes (0 when none remains): it is unchanged
  if and only if the height was 0 or another node of that level remains, and is lower
  otherwise, by one level or by more.
\<close>

theorem delete_top_level:
  assumes "reachable h s H" "node \<in> H" "level_of s node = l_level s"
  shows "\<exists>s'. skiplist_delnode h s node = Inr s' \<and> l_level s' \<le> l_level s \<and>
           (l_level s' = l_level s \<longleftrightarrow>
              l_level s = 0 \<or> (\<exists>x \<in> H - {node}. level_of s x = l_level s)) \<and>
           l_level s' = (if H - {node} = {} then 0 else Max (level_of s ` (H - {node})))"
proof -
  from reachable_delete_post [OF assms(1,2)]
  obtain xs s' where x: "Inv h s xs" "set xs = H" "skiplist_delnode h s node = Inr s'"
    "del_post h s xs node s'" "Inv h s' (remove1 node xs)" by blast
  have rm: "set (remove1 node xs) = H - {node}"
    using InvD(5) [OF x(1)] x(2) by (simp add: set_remove1_eq)
  have p: "0 \<le> l_level s'" "l_level s' \<le> l_level s"
    "\<forall>x \<in> H - {node}. level_of s x \<le> l_level s'"
    "l_level s' = 0 \<or> (\<exists>x \<in> H - {node}. level_of s x = l_level s')"
    using x(4) rm unfolding del_post_def by auto
  have lv: "level_of s' y = level_of s y" if "y \<in> H - {node}" for y
    using x(4) that unfolding del_post_def del_heap_def by auto
  have a: "l_level s' = l_level s \<longleftrightarrow>
      l_level s = 0 \<or> (\<exists>x \<in> H - {node}. level_of s x = l_level s)"
  proof
    assume "l_level s' = l_level s"
    then show "l_level s = 0 \<or> (\<exists>x \<in> H - {node}. level_of s x = l_level s)"
      using p(4) by auto
  next
    assume "l_level s = 0 \<or> (\<exists>x \<in> H - {node}. level_of s x = l_level s)"
    then show "l_level s' = l_level s"
    proof
      assume "l_level s = 0" then show ?thesis using p(1,2) by simp
    next
      assume "\<exists>x \<in> H - {node}. level_of s x = l_level s"
      then obtain y where "y \<in> H - {node}" "level_of s y = l_level s" by blast
      then have "l_level s \<le> l_level s'" using p(3) by force
      then show ?thesis using p(2) by simp
    qed
  qed
  have "level_of s' ` (H - {node}) = level_of s ` (H - {node})"
    using lv by (auto simp: image_iff)
  then have b: "l_level s' = (if H - {node} = {} then 0 else Max (level_of s ` (H - {node})))"
    using Inv_level_set [OF x(5)] unfolding rm by simp
  show ?thesis using x(3) p(2) a b by blast
qed

theorem delete_top_level_witness:
  "\<exists>s'. skiplist_delnode 1 top3 3 = Inr s' \<and> l_level s' \<le> 2 \<and> l_level s' \<noteq> 2 \<and> l_level s' = 0"
proof -
  have 1: "l_level top3 = 2" by code_simp
  have 2: "level_of top3 3 = 2" by code_simp
  have e: "{3 :: addr} - {3} = {}" by simp
  from delete_top_level [OF top_reachable(3), of 3] 1 2
  obtain s' where s': "skiplist_delnode 1 top3 3 = Inr s'" "l_level s' \<le> l_level top3"
    "l_level s' = l_level top3 \<longleftrightarrow>
       l_level top3 = 0 \<or> (\<exists>x \<in> {3} - {3}. level_of top3 x = l_level top3)"
    "l_level s' = (if {3 :: addr} - {3} = {} then 0 else Max (level_of top3 ` ({3} - {3})))"
    by auto
  have "l_level s' = 0" using s'(4) by simp
  moreover have "l_level s' \<noteq> 2" using s'(3) 1 by simp
  ultimately show ?thesis using s'(1,2) 1 by auto
qed

subsection \<open>Equality of stores\<close>

lemma state_eqI:
  fixes s t :: state
  assumes "l_level s = l_level t" "l_header s = l_header t" "dom (heap s) = dom (heap t)"
    "level_of s = level_of t" "key_of s = key_of t" "value_of s = value_of t"
    "\<forall>k. nxt s k = nxt t k" "\<forall>k. prv s k = prv t k"
  shows "s = t"
proof -
  have "heap s p = heap t p" for p
  proof (cases "heap s p")
    case None
    then have "p \<notin> dom (heap s)" by auto
    then have "p \<notin> dom (heap t)" using assms(3) by simp
    then have "heap t p = None" by auto
    then show ?thesis using None by simp
  next
    case (Some n)
    then have "p \<in> dom (heap s)" by auto
    then have "p \<in> dom (heap t)" using assms(3) by simp
    then obtain m where m: "heap t p = Some m" by auto
    have "level n = level m" using fun_cong [OF assms(4), of p] Some m by (simp add: level_of_def)
    moreover have "key n = key m" using fun_cong [OF assms(5), of p] Some m by (simp add: key_of_def)
    moreover have "value n = value m"
      using fun_cong [OF assms(6), of p] Some m by (simp add: value_of_def)
    moreover have "next n k = next m k" for k
      using assms(7) [rule_format, of k, THEN fun_cong, of p] Some m by (simp add: nxt_def)
    then have "next n = next m" by (rule ext)
    moreover have "prev n k = prev m k" for k
      using assms(8) [rule_format, of k, THEN fun_cong, of p] Some m by (simp add: prv_def)
    then have "prev n = prev m" by (rule ext)
    ultimately have "n = m" by simp
    then show ?thesis using Some m by simp
  qed
  then have "heap s = heap t" by (rule ext)
  then show ?thesis using assms(1,2) by simp
qed

lemma before_after_app:
  assumes "q \<notin> set ys"
  shows "before q (ys @ q # zs) = ys" and "after q (ys @ q # zs) = zs"
proof -
  have "takeWhile (\<lambda>x. x \<noteq> q) (ys @ q # zs) = ys @ takeWhile (\<lambda>x. x \<noteq> q) (q # zs)"
    by (rule takeWhile_append2) (use assms in auto)
  then show "before q (ys @ q # zs) = ys" by (simp add: before_def)
  have "dropWhile (\<lambda>x. x \<noteq> q) (ys @ q # zs) = dropWhile (\<lambda>x. x \<noteq> q) (q # zs)"
    by (rule dropWhile_append2) (use assms in auto)
  then show "after q (ys @ q # zs) = zs" by (simp add: after_def)
qed

lemma fresh_slices:
  assumes "q \<notin> dom (heap s)"
  shows "nxt s k q = None" "prv s k q = None" "level_of s q = 0" "key_of s q = 0"
    "value_of s q = NULL"
  using assms
  by (auto simp: nxt_def prv_def level_of_def key_of_def value_of_def split: option.splits)

text \<open>
  C9.  In every reachable state, an insert with a key below the sentinel's, followed at once
  by the delete of the returned handle, gives back the very store it started from: every
  node's fields and pointers at every level, the sentinel's pointers, the set of allocated
  nodes and the list's height.
\<close>

theorem insert_then_delete_restores:
  assumes "reachable h s H" "key' \<noteq> 0xFFFFFFFFFFFFFFFF"
    "newNode \<notin> dom (heap s)" "newNode \<noteq> NULL"
  shows "\<exists>s'. skiplist_insert h s key' value' randseed newNode = Some (Inr (s', newNode)) \<and>
           skiplist_delnode h s' newNode = Inr s"
proof -
  let ?q = newNode
  let ?K = "new_level s randseed"
  from reachable_Inv [OF assms(1)] obtain xs where xs: "Inv h s xs" by blast
  from insert_result [OF xs assms(2,3,4), of value' randseed]
  obtain s' where s': "skiplist_insert h s key' value' randseed ?q = Some (Inr (s', ?q))"
    "ins_post h s xs key' value' randseed ?q s'" by blast
  let ?ys = "le_part s key' xs" and ?zs = "gt_part s key' xs"
  let ?xs' = "?ys @ ?q # ?zs"
  have inv': "Inv h s' ?xs'" by (rule insert_Inv [OF xs assms(3,4) s'(2)])
  have qin: "?q \<in> set ?xs'" by simp
  from delete_result [OF inv' qin] obtain s'' where
    s'': "skiplist_delnode h s' ?q = Inr s''" "del_post h s' ?xs' ?q s''" by blast
  have inv'': "Inv h s'' (remove1 ?q ?xs')" by (rule delete_Inv [OF inv' qin s''(2)])
  have dm: "dom (heap s) = insert h (set xs)" by (rule InvD(3) [OF xs])
  have qx: "?q \<notin> set xs" "?q \<noteq> h" using dm assms(3) by auto
  have sub: "set ?ys \<subseteq> set xs" "set ?zs \<subseteq> set xs"
    by (rule le_part_subset, rule gt_part_subset)
  have qy: "?q \<notin> set ?ys" "?q \<notin> set ?zs" using qx sub by auto
  have rm: "remove1 ?q ?xs' = xs"
    using qy parts_append [of s key' xs] by (simp add: remove1_append)
  have ip: "l_level s' = max (l_level s) ?K" "l_header s' = l_header s"
    "dom (heap s') = insert ?q (dom (heap s))" "level_of s' = (level_of s)(?q := ?K)"
    "key_of s' = (key_of s)(?q := key')" "value_of s' = (value_of s)(?q := value')"
    "\<forall>j. 0 \<le> j \<and> j \<le> ?K \<longrightarrow>
        nxt s' j = (nxt s j)(?q \<mapsto> succ_at s h key' xs j, pred_at s h key' xs j \<mapsto> ?q) \<and>
        prv s' j = (prv s j)(?q \<mapsto> pred_at s h key' xs j, succ_at s h key' xs j \<mapsto> ?q)"
    "\<forall>j. \<not> (0 \<le> j \<and> j \<le> ?K) \<longrightarrow> nxt s' j = nxt s j \<and> prv s' j = prv s j"
    using s'(2) unfolding ins_post_def by blast+
  have lq: "level_of s' ?q = ?K" using ip(4) by simp
  have dp: "l_header s'' = l_header s'" "dom (heap s'') = dom (heap s') - {?q}"
    "level_of s'' = (level_of s')(?q := 0)" "key_of s'' = (key_of s')(?q := 0)"
    "value_of s'' = (value_of s')(?q := NULL)"
    "\<forall>j. 0 \<le> j \<and> j \<le> ?K \<longrightarrow>
        nxt s'' j = ((nxt s' j)(del_pred s' h ?xs' ?q j \<mapsto> del_succ s' h ?xs' ?q j))(?q := None) \<and>
        prv s'' j = ((prv s' j)(del_succ s' h ?xs' ?q j \<mapsto> del_pred s' h ?xs' ?q j))(?q := None)"
    "\<forall>j. \<not> (0 \<le> j \<and> j \<le> ?K) \<longrightarrow>
        nxt s'' j = (nxt s' j)(?q := None) \<and> prv s'' j = (prv s' j)(?q := None)"
    using s''(2) lq unfolding del_post_def del_heap_def by simp_all
  note fs = fresh_slices [OF assms(3)]
  note sp = before_after_app [OF qy(1), of ?zs]
  have lev_old: "\<forall>x \<in> set xs. level_of s' x = level_of s x" using ip(4) qx by auto
  have lfy: "lev_filter s' j ?ys = lev_filter s j ?ys" for j
    by (rule lev_filter_cong) (use lev_old sub in auto)
  have lfz: "lev_filter s' j ?zs = lev_filter s j ?zs" for j
    by (rule lev_filter_cong) (use lev_old sub in auto)
  have P: "del_pred s' h ?xs' ?q j = pred_at s h key' xs j" for j
    unfolding del_pred_def pred_at_def sp(1) using lfy by simp
  have C: "del_succ s' h ?xs' ?q j = succ_at s h key' xs j" for j
    unfolding del_succ_def succ_at_def sp(2) using lfz by simp
  note nb = new_level_bounds [OF InvD(9,10) [OF xs], of randseed]
  have nx: "nxt s'' j = nxt s j" and pv: "prv s'' j = prv s j" for j
  proof -
    let ?P = "pred_at s h key' xs j" and ?C = "succ_at s h key' xs j"
    show "nxt s'' j = nxt s j"
    proof (cases "0 \<le> j \<and> j \<le> ?K")
      case True
      then have jb: "in_bounds j" using nb(3) by (simp add: in_bounds_def)
      have old: "nxt s j ?P = Some ?C" by (rule Inv_pred_succ(1) [OF xs jb])
      have "nxt s'' j = ((nxt s' j)(?P \<mapsto> ?C))(?q := None)" using dp(6) True P C by simp
      also have "nxt s' j = (nxt s j)(?q \<mapsto> ?C, ?P \<mapsto> ?q)" using ip(7) True by simp
      finally show ?thesis using old fs(1) [of j] by (auto simp: fun_eq_iff)
    next
      case False
      then have "nxt s'' j = (nxt s j)(?q := None)" using dp(7) ip(8) by simp
      then show ?thesis using fs(1) [of j] by (auto simp: fun_eq_iff)
    qed
    show "prv s'' j = prv s j"
    proof (cases "0 \<le> j \<and> j \<le> ?K")
      case True
      then have jb: "in_bounds j" using nb(3) by (simp add: in_bounds_def)
      have old: "prv s j ?C = Some ?P" by (rule Inv_pred_succ(2) [OF xs jb])
      have "prv s'' j = ((prv s' j)(?C \<mapsto> ?P))(?q := None)" using dp(6) True P C by simp
      also have "prv s' j = (prv s j)(?q \<mapsto> ?P, ?C \<mapsto> ?q)" using ip(7) True by simp
      finally show ?thesis using old fs(2) [of j] by (auto simp: fun_eq_iff)
    next
      case False
      then have "prv s'' j = (prv s j)(?q := None)" using dp(7) ip(8) by simp
      then show ?thesis using fs(2) [of j] by (auto simp: fun_eq_iff)
    qed
  qed
  have lv: "level_of s'' = level_of s" using dp(3) ip(4) fs(3) by (auto simp: fun_eq_iff)
  have ky: "key_of s'' = key_of s" using dp(4) ip(5) fs(4) by (auto simp: fun_eq_iff)
  have vl: "value_of s'' = value_of s" using dp(5) ip(6) fs(5) by (auto simp: fun_eq_iff)
  have dd: "dom (heap s'') = dom (heap s)" using dp(2) ip(3) assms(3) by auto
  have hd: "l_header s'' = l_header s" using dp(1) ip(2) by simp
  have "l_level s'' = Max (insert 0 (level_of s'' ` set xs))"
    using Inv_level_Max [OF inv''] unfolding rm .
  then have ll: "l_level s'' = l_level s" using Inv_level_Max [OF xs] lv by simp
  have "s'' = s" by (rule state_eqI [OF ll hd dd lv ky vl]) (use nx pv in auto)
  then show ?thesis using s'(1) s''(1) by blast
qed

theorem insert_then_delete_restores_witness:
  "\<exists>s'. skiplist_insert 1 ex2 4 44 64 9 = Some (Inr (s', 9)) \<and> skiplist_delnode 1 s' 9 = Inr ex2"
proof (rule insert_then_delete_restores [OF ex_reachable(3)])
  show "(4 :: keyType) \<noteq> 0xFFFFFFFFFFFFFFFF" by simp
  show "9 \<notin> dom (heap ex2)" using reachable_dom(1) [OF ex_reachable(3)] by simp
  show "(9 :: addr) \<noteq> NULL" by simp
qed

text \<open>
  C8.  The handle an insert returns is the allocated node; its level is in \<open>0..15\<close> (the
  randomized level, or the old height plus one when that is smaller), its key and value are
  the arguments.  At every level from 0 to its level it sits between a node \<open>p\<close> and the
  node \<open>c\<close> that followed \<open>p\<close> before, with \<open>next\<close> and \<open>prev\<close> set on both sides.  At every
  level above its own its slots are unwritten and no node points to it.
\<close>

theorem insert_links_node:
  assumes "reachable h s H" "newNode \<notin> dom (heap s)"
    "skiplist_insert h s key' value' randseed newNode = Some (Inr (s', q))"
  shows "q = newNode \<and> 0 \<le> level_of s' q \<and> level_of s' q \<le> 15 \<and>
         level_of s' q = min (randomLevel randseed) (l_level s + 1) \<and>
         (\<exists>n. heap s' q = Some n \<and> level n = level_of s' q \<and> key n = key' \<and> value n = value') \<and>
         (\<forall>k. 0 \<le> k \<and> k \<le> level_of s' q \<longrightarrow>
            (\<exists>p c. nxt s k p = Some c \<and> nxt s' k p = Some q \<and> prv s' k q = Some p \<and>
                   nxt s' k q = Some c \<and> prv s' k c = Some q)) \<and>
         (\<forall>k. level_of s' q < k \<and> k < MaxNumberOfLevels \<longrightarrow>
            nxt s' k q = None \<and> prv s' k q = None \<and>
            (\<forall>p. nxt s' k p \<noteq> Some q \<and> prv s' k p \<noteq> Some q))"
proof -
  let ?K = "new_level s randseed"
  from reachable_insert_post [OF assms]
  obtain xs where x: "Inv h s xs" "q = newNode" "ins_post h s xs key' value' randseed q s'"
    "Inv h s' (le_part s key' xs @ q # gt_part s key' xs)" by blast
  have fresh: "q \<notin> dom (heap s)" using assms(2) x(2) by simp
  note nb = new_level_bounds [OF InvD(9,10) [OF x(1)], of randseed]
  have ip: "dom (heap s') = insert q (dom (heap s))" "level_of s' = (level_of s)(q := ?K)"
    "key_of s' = (key_of s)(q := key')" "value_of s' = (value_of s)(q := value')"
    "\<forall>j. \<not> (0 \<le> j \<and> j \<le> ?K) \<longrightarrow> nxt s' j = nxt s j \<and> prv s' j = prv s j"
    using x(3) unfolding ins_post_def by blast+
  have lq: "level_of s' q = ?K" using ip(2) by simp
  have 1: "0 \<le> level_of s' q \<and> level_of s' q \<le> 15"
    using lq nb(3) by (simp add: in_bounds_def MaxNumberOfLevels_def)
  have 2: "level_of s' q = min (randomLevel randseed) (l_level s + 1)"
    using lq by (auto simp: new_level_def)
  have "q \<in> dom (heap s')" using ip(1) by simp
  then obtain n where n: "heap s' q = Some n" by auto
  have 3: "\<exists>n. heap s' q = Some n \<and> level n = level_of s' q \<and> key n = key' \<and> value n = value'"
    using n fun_cong [OF ip(3), of q] fun_cong [OF ip(4), of q]
    by (simp add: level_of_def key_of_def value_of_def)
  have 4: "\<forall>k. 0 \<le> k \<and> k \<le> level_of s' q \<longrightarrow>
            (\<exists>p c. nxt s k p = Some c \<and> nxt s' k p = Some q \<and> prv s' k q = Some p \<and>
                   nxt s' k q = Some c \<and> prv s' k c = Some q)"
  proof (intro allI impI)
    fix k assume "0 \<le> k \<and> k \<le> level_of s' q"
    then have k: "0 \<le> k" "k \<le> ?K" using lq by simp_all
    from ins_post_ptrs [OF x(1) fresh x(3) k]
    show "\<exists>p c. nxt s k p = Some c \<and> nxt s' k p = Some q \<and> prv s' k q = Some p \<and>
                   nxt s' k q = Some c \<and> prv s' k c = Some q" by blast
  qed
  have 5: "\<forall>k. level_of s' q < k \<and> k < MaxNumberOfLevels \<longrightarrow>
            nxt s' k q = None \<and> prv s' k q = None \<and>
            (\<forall>p. nxt s' k p \<noteq> Some q \<and> prv s' k p \<noteq> Some q)"
  proof (intro allI impI)
    fix k assume a: "level_of s' q < k \<and> k < MaxNumberOfLevels"
    then have kb: "in_bounds k" using 1 by (simp add: in_bounds_def)
    have e: "nxt s' k = nxt s k" "prv s' k = prv s k" using ip(5) a lq by auto
    have "nxt s k p \<noteq> Some q \<and> prv s k p \<noteq> Some q" for p
      using Inv_ptr_closed [OF x(1) kb, of p q] fresh by blast
    then show "nxt s' k q = None \<and> prv s' k q = None \<and>
            (\<forall>p. nxt s' k p \<noteq> Some q \<and> prv s' k p \<noteq> Some q)"
      using e fresh_slices(1,2) [OF fresh, of k] by simp
  qed
  show ?thesis using x(2) 1 2 3 4 5 by blast
qed

theorem insert_links_node_witness:
  "level_of ex2 3 = 1 \<and> key_of ex2 3 = 3 \<and> value_of ex2 3 = 30 \<and>
   (\<exists>p c. nxt ex1 0 p = Some c \<and> nxt ex2 0 p = Some 3 \<and> prv ex2 0 3 = Some p \<and>
          nxt ex2 0 3 = Some c \<and> prv ex2 0 c = Some 3) \<and>
   (\<exists>p c. nxt ex1 1 p = Some c \<and> nxt ex2 1 p = Some 3 \<and> prv ex2 1 3 = Some p \<and>
          nxt ex2 1 3 = Some c \<and> prv ex2 1 c = Some 3) \<and>
   nxt ex2 2 3 = None \<and> prv ex2 2 3 = None \<and> nxt ex2 2 1 \<noteq> Some 3 \<and> prv ex2 2 1 \<noteq> Some 3"
proof -
  have i: "skiplist_insert 1 ex1 3 30 4 3 = Some (Inr (ex2, 3))"
    unfolding ex2_def by (rule reachable_after_insert(1) [OF ex_reachable(2)]) simp_all
  have f: "3 \<notin> dom (heap ex1)" using reachable_dom(1) [OF ex_reachable(2)] by simp
  note T = insert_links_node [OF ex_reachable(2) f i]
  have l: "level_of ex2 3 = 1" by (rule ex_levels(5))
  have kv: "key_of ex2 3 = 3" "value_of ex2 3 = 30"
    using T by (auto simp: key_of_def value_of_def)
  have A: "\<forall>k. 0 \<le> k \<and> k \<le> level_of ex2 3 \<longrightarrow>
            (\<exists>p c. nxt ex1 k p = Some c \<and> nxt ex2 k p = Some 3 \<and> prv ex2 k 3 = Some p \<and>
                   nxt ex2 k 3 = Some c \<and> prv ex2 k c = Some 3)"
    using T by blast
  have B: "\<forall>k. level_of ex2 3 < k \<and> k < MaxNumberOfLevels \<longrightarrow>
            nxt ex2 k 3 = None \<and> prv ex2 k 3 = None \<and>
            (\<forall>p. nxt ex2 k p \<noteq> Some 3 \<and> prv ex2 k p \<noteq> Some 3)"
    using T by blast
  have a0: "\<exists>p c. nxt ex1 0 p = Some c \<and> nxt ex2 0 p = Some 3 \<and> prv ex2 0 3 = Some p \<and>
          nxt ex2 0 3 = Some c \<and> prv ex2 0 c = Some 3"
    using A [rule_format, of 0] l by simp
  have a1: "\<exists>p c. nxt ex1 1 p = Some c \<and> nxt ex2 1 p = Some 3 \<and> prv ex2 1 3 = Some p \<and>
          nxt ex2 1 3 = Some c \<and> prv ex2 1 c = Some 3"
    using A [rule_format, of 1] l by simp
  have b2: "nxt ex2 2 3 = None \<and> prv ex2 2 3 = None \<and>
            (\<forall>p. nxt ex2 2 p \<noteq> Some 3 \<and> prv ex2 2 p \<noteq> Some 3)"
    using B [rule_format, of 2] l by (simp add: MaxNumberOfLevels_def)
  show ?thesis using l kv a0 a1 b2 by blast
qed

subsection \<open>Runs of inserts and deletes\<close>

lemma insert_all_reachable:
  assumes "reachable h s H" "insert_all h s ins = Some (Inr (s', qs))"
    "distinct (map (\<lambda>(k, v, r, a). a) ins)" "set (map (\<lambda>(k, v, r, a). a) ins) \<inter> dom (heap s) = {}"
  shows "reachable h s' (H \<union> set qs) \<and> qs = map (\<lambda>(k, v, r, a). a) ins"
  using assms
proof (induction ins arbitrary: s H s' qs)
  case Nil
  then show ?case by simp
next
  case (Cons i ins)
  obtain k v r a where i: "i = (k, v, r, a)" by (cases i) auto
  from Cons.prems(2) i obtain s1 q where
    s1: "skiplist_insert h s k v r a = Some (Inr (s1, q))"
    by (auto split: option.splits sum.splits)
  from Cons.prems(2) i s1 obtain qs1 where
    r1: "insert_all h s1 ins = Some (Inr (s', qs1))" "qs = q # qs1"
    by (auto split: option.splits sum.splits)
  have fr: "a \<notin> dom (heap s)" using Cons.prems(4) i by auto
  from reachable_insert_post [OF Cons.prems(1) fr s1] have qa: "q = a" by blast
  have re: "reachable h s1 (insert q H)" by (rule reachable.ins [OF Cons.prems(1) fr s1])
  have d1: "dom (heap s1) = insert h (insert q H)" by (rule reachable_dom(1) [OF re])
  have d0: "dom (heap s) = insert h H" by (rule reachable_dom(1) [OF Cons.prems(1)])
  have IH: "reachable h s' (insert q H \<union> set qs1) \<and> qs1 = map (\<lambda>(k, v, r, a). a) ins"
  proof (rule Cons.IH [OF re r1(1)])
    show "distinct (map (\<lambda>(k, v, r, a). a) ins)" using Cons.prems(3) by simp
    show "set (map (\<lambda>(k, v, r, a). a) ins) \<inter> dom (heap s1) = {}"
      using Cons.prems(3,4) i qa d0 d1 by auto
  qed
  have e: "insert q H \<union> set qs1 = H \<union> set qs" using r1(2) by auto
  have A: "reachable h s' (H \<union> set qs)" using IH [THEN conjunct1] unfolding e .
  have B: "qs = map (\<lambda>(k, v, r, a). a) (i # ins)"
    using IH [THEN conjunct2] r1(2) qa i by simp
  show ?case using A B by (rule conjI)
qed

lemma delete_all_reachable:
  assumes "reachable h s H" "distinct ds" "set ds \<subseteq> H"
  shows "\<exists>s'. delete_all h s ds = Inr s' \<and> reachable h s' (H - set ds)"
  using assms
proof (induction ds arbitrary: s H)
  case Nil
  then show ?case by simp
next
  case (Cons d ds)
  have dH: "d \<in> H" using Cons.prems(3) by simp
  note r = reachable_after_delete [OF Cons.prems(1) dH]
  have "\<exists>s'. delete_all h (after_delete h s d) ds = Inr s' \<and> reachable h s' (H - {d} - set ds)"
    by (rule Cons.IH [OF r(2)]) (use Cons.prems(2,3) in auto)
  moreover have "H - {d} - set ds = H - set (d # ds)" by auto
  ultimately show ?case using r(1) by simp
qed

lemma fresh_list_init:
  assumes "skiplist_init a Map.empty = Inr (hp, h)"
  shows "new_skiplist hp h = fresh_list a" and "h = a" and "a \<noteq> NULL"
  using assms by (auto simp: skiplist_init_def fresh_list_def Let_def split: if_splits)

text \<open>
  C7.  Insert any number of nodes into a freshly constructed list (the allocator giving a
  new address each time), then delete all the returned handles, each once, in any order:
  every delete returns, and at the end the list's height is 0, the sentinel's \<open>next\<close> and
  \<open>prev\<close> point to the sentinel at each of the 16 levels, and the sentinel is the only node
  allocated.
\<close>

theorem insert_all_delete_all_empty:
  assumes "skiplist_init a Map.empty = Inr (hp, h)"
    and "insert_all h (new_skiplist hp h) ins = Some (Inr (s, qs))"
    and "distinct (h # map (\<lambda>(k, v, r, a). a) ins)"
    and "set ds = set qs" "distinct ds"
  shows "\<exists>s'. delete_all h s ds = Inr s' \<and> l_level s' = 0 \<and> dom (heap s') = {h} \<and>
           (\<forall>k. 0 \<le> k \<and> k < MaxNumberOfLevels \<longrightarrow>
              nxt s' k h = Some h \<and> prv s' k h = Some h)"
proof -
  note fl = fresh_list_init [OF assms(1)]
  have r0: "reachable h (new_skiplist hp h) {}" by (rule reachable.init [OF assms(1)])
  have d0: "dom (heap (new_skiplist hp h)) = {h}" using reachable_dom(1) [OF r0] by simp
  have "reachable h s ({} \<union> set qs) \<and> qs = map (\<lambda>(k, v, r, a). a) ins"
    by (rule insert_all_reachable [OF r0 assms(2)]) (use assms(3) d0 in auto)
  then have "reachable h s ({} \<union> set qs)" by (rule conjunct1)
  then have rs: "reachable h s (set qs)" by (simp only: Un_empty_left)
  from delete_all_reachable [OF rs assms(5)] assms(4)
  obtain s' where s': "delete_all h s ds = Inr s'" "reachable h s' {}" by auto
  from reachable_Inv [OF s'(2)] obtain xs where xs: "Inv h s' xs" "set xs = {}" by blast
  then have inv: "Inv h s' []" by simp
  have l: "l_level s' = 0" using InvD(12) [OF inv] by simp
  have d: "dom (heap s') = {h}" using InvD(3) [OF inv] by simp
  have "nxt s' k h = Some h \<and> prv s' k h = Some h" if "0 \<le> k \<and> k < MaxNumberOfLevels" for k
  proof -
    have "in_bounds k" using that by (simp add: in_bounds_def)
    then have "lnk (nxt s' k) (prv s' k) h (lev_filter s' k []) h" using InvD(14) [OF inv] by blast
    then show ?thesis by (simp add: lev_filter_def)
  qed
  then show ?thesis using s'(1) l d by blast
qed

theorem insert_all_delete_all_empty_witness:
  "\<exists>s'. delete_all 1 ex3 [3, 4, 2] = Inr s' \<and> l_level s' = 0 \<and> dom (heap s') = {1} \<and>
        nxt s' 0 1 = Some 1 \<and> prv s' 0 1 = Some 1 \<and> nxt s' 15 1 = Some 1 \<and> prv s' 15 1 = Some 1"
proof -
  let ?hp = "[1 \<mapsto> init_links 1 \<lparr>level = 0, key = 0xFFFFFFFFFFFFFFFF, value = NULL,
                     next = Map.empty, prev = Map.empty\<rparr> 0]"
  have i0: "skiplist_init 1 Map.empty = Inr (?hp, 1)"
    by (simp add: skiplist_init_def Let_def)
  have fl: "new_skiplist ?hp 1 = fresh_list 1" by (rule fresh_list_init(1) [OF i0])
  have i1: "skiplist_insert 1 (fresh_list 1) 5 50 1 2 = Some (Inr (ex1, 2))"
    unfolding ex1_def by (rule reachable_after_insert(1) [OF ex_reachable(1)]) simp_all
  have i2: "skiplist_insert 1 ex1 3 30 4 3 = Some (Inr (ex2, 3))"
    unfolding ex2_def by (rule reachable_after_insert(1) [OF ex_reachable(2)]) simp_all
  have i3: "skiplist_insert 1 ex2 8 80 1 4 = Some (Inr (ex3, 4))"
    unfolding ex3_def by (rule reachable_after_insert(1) [OF ex_reachable(3)]) simp_all
  have ia: "insert_all 1 (new_skiplist ?hp 1) [(5, 50, 1, 2), (3, 30, 4, 3), (8, 80, 1, 4)] =
      Some (Inr (ex3, [2, 3, 4]))"
    unfolding fl
    by (simp only: insert_all.simps i1 i2 i3 option.case sum.case prod.case)
  have "\<exists>s'. delete_all 1 ex3 [3, 4, 2] = Inr s' \<and> l_level s' = 0 \<and> dom (heap s') = {1} \<and>
           (\<forall>k. 0 \<le> k \<and> k < MaxNumberOfLevels \<longrightarrow>
              nxt s' k 1 = Some 1 \<and> prv s' k 1 = Some 1)"
    by (rule insert_all_delete_all_empty [OF i0 ia]) auto
  then obtain s' where s': "delete_all 1 ex3 [3, 4, 2] = Inr s'" "l_level s' = 0"
    "dom (heap s') = {1}"
    "\<forall>k. 0 \<le> k \<and> k < MaxNumberOfLevels \<longrightarrow> nxt s' k 1 = Some 1 \<and> prv s' k 1 = Some 1"
    by blast
  have "nxt s' 0 1 = Some 1 \<and> prv s' 0 1 = Some 1"
    using s'(4) [rule_format, of 0] by (simp add: MaxNumberOfLevels_def)
  moreover have "nxt s' 15 1 = Some 1 \<and> prv s' 15 1 = Some 1"
    using s'(4) [rule_format, of 15] by (simp add: MaxNumberOfLevels_def)
  ultimately show ?thesis using s'(1,2,3) by blast
qed

end
